theory Spec2Isabelle
  imports Complex_Main "HOL-Library.Sublist" "HOL-Library.AList"
begin

section \<open>The EPUB to PDF converter: model\<close>

text \<open>
  A shallow embedding of \<^verbatim>\<open>src/epub2pdf.py\<close> (class \<^verbatim>\<open>EPUBtoPDFConverter\<close>).

  A Python \<^verbatim>\<open>str\<close> is modelled by the \<^typ>\<open>string\<close> of its UTF-8 bytes, and \<^verbatim>\<open>bytes\<close> by
  the \<^typ>\<open>string\<close> of its bytes. The source never takes the length of a \<^verbatim>\<open>str\<close>, and
  every pattern and separator it uses is ASCII, so a character beyond ASCII passes through
  as the bytes that encode it. The three places where Python looks at characters beyond
  ASCII are modelled on ASCII: \<^verbatim>\<open>str.lower()\<close>, the class \<^verbatim>\<open>\s\<close> and the flag
  \<^verbatim>\<open>re.IGNORECASE\<close> (whose Unicode forms add U+0085, U+00A0 and further spaces, and the
  letters U+0130, U+0131, U+017F and U+212A as forms of i, s and k).

  Methods keep the names of the source; a leading underscore is dropped.
\<close>

subsection \<open>Python string builtins used by the source\<close>

definition ascii_uppercase :: string where
  "ascii_uppercase = ''ABCDEFGHIJKLMNOPQRSTUVWXYZ''"

text \<open>
  \<^verbatim>\<open>str.lower()\<close> on one ASCII character: the lower-case letter is 32 above the
  upper-case one, which sets bit 5 of the code.
\<close>

definition lower_char :: "char \<Rightarrow> char" where
  "lower_char c =
     (if c \<in> set ascii_uppercase
      then (case c of Char b0 b1 b2 b3 b4 b5 b6 b7 \<Rightarrow> Char b0 b1 b2 b3 b4 True b6 b7)
      else c)"

definition lower :: "string \<Rightarrow> string" where
  "lower s = map lower_char s"

text \<open>
  \<^verbatim>\<open>s.split(sep)[-1]\<close> for a separator of one character: the text after the last
  separator, and all of \<open>s\<close> when it holds none. \<^verbatim>\<open>split\<close> never returns an empty list,
  so the index \<^verbatim>\<open>[-1]\<close> cannot raise.
\<close>

definition last_segment :: "char \<Rightarrow> string \<Rightarrow> string" where
  "last_segment sep s = rev (takeWhile (\<lambda>c. c \<noteq> sep) (rev s))"

text \<open>
  \<^verbatim>\<open>s.replace(old, new)\<close> for a non-empty \<open>old\<close> (the source passes literals): the
  occurrences of \<open>old\<close> are found from the left and do not overlap.
\<close>

function replace :: "string \<Rightarrow> string \<Rightarrow> string \<Rightarrow> string" where
  "replace old new [] = []"
| "replace old new (x # xs) =
     (if old \<noteq> [] \<and> prefix old (x # xs)
      then new @ replace old new (drop (length old) (x # xs))
      else x # replace old new xs)"
  by pat_completeness auto
termination
  by (relation "measure (\<lambda>(old, new, s). length s)") auto

text \<open>\<^verbatim>\<open>s.lstrip(c)\<close> for one character: every leading \<open>c\<close> goes.\<close>

definition lstrip :: "char \<Rightarrow> string \<Rightarrow> string" where
  "lstrip c s = dropWhile (\<lambda>x. x = c) s"

text \<open>
  \<^verbatim>\<open>dict.fromkeys(xs)\<close>: a dict keeps its keys in the order of their first insertion,
  so \<^verbatim>\<open>list(dict.fromkeys(xs))\<close>, the keys, keeps the first occurrence of every element.
\<close>

definition fromkeys :: "'a list \<Rightarrow> ('a \<times> unit) list" where
  "fromkeys xs = foldl (\<lambda>d k. AList.update k () d) [] xs"

definition nl :: string where
  "nl = [CHR 0x0A]"

subsection \<open>Library functions: base64 and UTF-8\<close>

definition byte :: "char \<Rightarrow> nat" where
  "byte c = of_char c"

definition b64_alphabet :: string where
  "b64_alphabet = ''ABCDEFGHIJKLMNOPQRSTUVWXYZabcdefghijklmnopqrstuvwxyz0123456789+/''"

definition b64_digit :: "nat \<Rightarrow> char" where
  "b64_digit n = b64_alphabet ! n"

text \<open>
  \<^verbatim>\<open>base64.b64encode(content).decode('utf-8')\<close>: three bytes give four digits, each below
  64, and a last group of one or two bytes is padded with \<^verbatim>\<open>=\<close>. The digits are ASCII, so
  the decoding is the identity.
\<close>

fun b64encode :: "string \<Rightarrow> string" where
  "b64encode [] = []"
| "b64encode [a] =
     [b64_digit (byte a div 4), b64_digit (byte a mod 4 * 16), CHR ''='', CHR ''='']"
| "b64encode [a, b] =
     [b64_digit (byte a div 4), b64_digit (byte a mod 4 * 16 + byte b div 16),
      b64_digit (byte b mod 16 * 4), CHR ''='']"
| "b64encode (a # b # c # rest) =
     [b64_digit (byte a div 4), b64_digit (byte a mod 4 * 16 + byte b div 16),
      b64_digit (byte b mod 16 * 4 + byte c div 64), b64_digit (byte c mod 64)]
     @ b64encode rest"

definition in_range :: "nat \<Rightarrow> nat \<Rightarrow> char \<Rightarrow> bool" where
  "in_range lo hi c = (lo \<le> byte c \<and> byte c \<le> hi)"

text \<open>
  The length of the well-formed UTF-8 sequence at the head of the bytes (Unicode, table
  3-7), or 0 when there is none.
\<close>

fun utf8_len :: "string \<Rightarrow> nat" where
  "utf8_len [] = 0"
| "utf8_len (a # rest) =
     (if in_range 0x00 0x7F a then 1
      else case rest of
        [] \<Rightarrow> 0
      | b # rest2 \<Rightarrow>
          if in_range 0xC2 0xDF a then (if in_range 0x80 0xBF b then 2 else 0)
          else (case rest2 of
            [] \<Rightarrow> 0
          | c # rest3 \<Rightarrow>
              if \<not> in_range 0x80 0xBF c then 0
              else if in_range 0xE0 0xE0 a then (if in_range 0xA0 0xBF b then 3 else 0)
              else if in_range 0xE1 0xEC a then (if in_range 0x80 0xBF b then 3 else 0)
              else if in_range 0xED 0xED a then (if in_range 0x80 0x9F b then 3 else 0)
              else if in_range 0xEE 0xEF a then (if in_range 0x80 0xBF b then 3 else 0)
              else (case rest3 of
                [] \<Rightarrow> 0
              | d # rest4 \<Rightarrow>
                  if \<not> in_range 0x80 0xBF d then 0
                  else if in_range 0xF0 0xF0 a then (if in_range 0x90 0xBF b then 4 else 0)
                  else if in_range 0xF1 0xF3 a then (if in_range 0x80 0xBF b then 4 else 0)
                  else if in_range 0xF4 0xF4 a then (if in_range 0x80 0x8F b then 4 else 0)
                  else 0)))"

text \<open>
  \<^verbatim>\<open>content.decode('utf-8', errors='ignore')\<close>: the well-formed sequences stay and every
  other byte is dropped; the call cannot raise. The result is the text, which the model
  holds as its UTF-8 bytes. The argument \<open>keep\<close> counts the bytes still to copy of the
  sequence that was found.
\<close>

fun decode_from :: "nat \<Rightarrow> string \<Rightarrow> string" where
  "decode_from keep [] = []"
| "decode_from (Suc keep) (a # rest) = a # decode_from keep rest"
| "decode_from 0 (a # rest) =
     (case utf8_len (a # rest) of
        0 \<Rightarrow> decode_from 0 rest
      | Suc n \<Rightarrow> a # decode_from n rest)"

definition decode_utf8_ignore :: "string \<Rightarrow> string" where
  "decode_utf8_ignore content = decode_from 0 content"

subsection \<open>Regular expressions of the module \<^verbatim>\<open>re\<close>\<close>

text \<open>
  Every pattern of the source is a sequence of single characters and character classes,
  each taken once or under \<^verbatim>\<open>*\<close>, \<^verbatim>\<open>+\<close> or \<^verbatim>\<open>*?\<close>, with at most one group. The matcher
  is the backtracking one of \<^verbatim>\<open>re\<close>: a greedy repetition takes as many characters as it
  can and gives them back one at a time, a lazy one takes as few as it can, and the first
  way that matches the whole pattern is the answer.
\<close>

definition whitespace :: string where
  "whitespace = [CHR 0x09, CHR 0x0A, CHR 0x0B, CHR 0x0C, CHR 0x0D,
                 CHR 0x1C, CHR 0x1D, CHR 0x1E, CHR 0x1F, CHR 0x20]"

datatype cclass =
    Lit char            \<comment> \<open>the character\<close>
  | LitI char           \<comment> \<open>the character, under \<^verbatim>\<open>re.IGNORECASE\<close>\<close>
  | AnyOf string        \<comment> \<open>\<^verbatim>\<open>[...]\<close>\<close>
  | NoneOf string       \<comment> \<open>\<^verbatim>\<open>[^...]\<close>\<close>
  | Space               \<comment> \<open>\<^verbatim>\<open>\s\<close>\<close>
  | AnyChar             \<comment> \<open>\<^verbatim>\<open>.\<close> under \<^verbatim>\<open>re.DOTALL\<close>\<close>

fun cmatch :: "cclass \<Rightarrow> char \<Rightarrow> bool" where
  "cmatch (Lit c) x = (x = c)"
| "cmatch (LitI c) x = (lower_char x = lower_char c)"
| "cmatch (AnyOf cs) x = (x \<in> set cs)"
| "cmatch (NoneOf cs) x = (x \<notin> set cs)"
| "cmatch Space x = (x \<in> set whitespace)"
| "cmatch AnyChar x = True"

datatype tok =
    One cclass | Star cclass | Plus cclass | LazyStar cclass | GroupOpen | GroupClose

text \<open>
  A match is the number of characters it takes and the span of group 1, both counted from
  where the match starts.
\<close>

type_synonym mres = "nat \<times> (nat \<times> nat) option"

definition shift :: "mres \<Rightarrow> mres" where
  "shift r = (Suc (fst r), map_option (\<lambda>(b, e). (Suc b, Suc e)) (snd r))"

fun rmatch :: "tok list \<Rightarrow> string \<Rightarrow> mres option" where
  "rmatch [] s = Some (0, None)"
| "rmatch (GroupOpen # ts) s =
     map_option (\<lambda>(n, g). (n, map_option (\<lambda>(b, e). (0, e)) g)) (rmatch ts s)"
| "rmatch (GroupClose # ts) s =
     map_option (\<lambda>(n, g). (n, Some (0, 0))) (rmatch ts s)"
| "rmatch (One c # ts) [] = None"
| "rmatch (One c # ts) (x # xs) =
     (if cmatch c x then map_option shift (rmatch ts xs) else None)"
| "rmatch (Plus c # ts) [] = None"
| "rmatch (Plus c # ts) (x # xs) =
     (if cmatch c x then map_option shift (rmatch (Star c # ts) xs) else None)"
| "rmatch (Star c # ts) [] = rmatch ts []"
| "rmatch (Star c # ts) (x # xs) =
     (if cmatch c x
      then (case rmatch (Star c # ts) xs of
              Some r \<Rightarrow> Some (shift r)
            | None \<Rightarrow> rmatch ts (x # xs))
      else rmatch ts (x # xs))"
| "rmatch (LazyStar c # ts) [] = rmatch ts []"
| "rmatch (LazyStar c # ts) (x # xs) =
     (case rmatch ts (x # xs) of
        Some r \<Rightarrow> Some r
      | None \<Rightarrow>
          if cmatch c x then map_option shift (rmatch (LazyStar c # ts) xs) else None)"

definition lit :: "string \<Rightarrow> tok list" where
  "lit s = map (\<lambda>c. One (Lit c)) s"

definition liti :: "string \<Rightarrow> tok list" where
  "liti s = map (\<lambda>c. One (LitI c)) s"

definition group0 :: "string \<Rightarrow> mres \<Rightarrow> string" where
  "group0 s r = take (fst r) s"

definition group1 :: "string \<Rightarrow> mres \<Rightarrow> string" where
  "group1 s r = (case snd r of Some (b, e) \<Rightarrow> take (e - b) (drop b s) | None \<Rightarrow> [])"

text \<open>\<^verbatim>\<open>re.search\<close>: the match at the leftmost position that has one, and that position.\<close>

fun search :: "tok list \<Rightarrow> string \<Rightarrow> (nat \<times> mres) option" where
  "search ts [] = map_option (Pair 0) (rmatch ts [])"
| "search ts (x # xs) =
     (case rmatch ts (x # xs) of
        Some r \<Rightarrow> Some (0, r)
      | None \<Rightarrow> map_option (\<lambda>(i, r). (Suc i, r)) (search ts xs))"

text \<open>
  \<^verbatim>\<open>re.sub(pattern, repl, s)\<close> with a function \<open>repl\<close> of the match, here of its groups
  0 and 1: the matches are found from the left and do not overlap. Every pattern of the
  source starts with a literal character and matches no empty string, so the model leaves
  out what \<^verbatim>\<open>re.sub\<close> does at an empty match.
\<close>

function sub :: "tok list \<Rightarrow> (string \<Rightarrow> string \<Rightarrow> string) \<Rightarrow> string \<Rightarrow> string" where
  "sub ts repl [] = []"
| "sub ts repl (x # xs) =
     (case rmatch ts (x # xs) of
        Some (Suc n, g) \<Rightarrow>
          repl (group0 (x # xs) (Suc n, g)) (group1 (x # xs) (Suc n, g))
          @ sub ts repl (drop n xs)
      | _ \<Rightarrow> x # sub ts repl xs)"
  by pat_completeness auto
termination
  by (relation "measure (\<lambda>(ts, repl, s). length s)") auto

text \<open>
  \<^verbatim>\<open>re.sub(pattern, template, s, count=1)\<close> with a template free of backslashes, which
  stands for itself: the first match is replaced.
\<close>

definition sub_first :: "tok list \<Rightarrow> string \<Rightarrow> string \<Rightarrow> string" where
  "sub_first ts template s =
     (case search ts s of
        Some (i, r) \<Rightarrow> take i s @ template @ drop (i + fst r) s
      | None \<Rightarrow> s)"

subsection \<open>The package, as \<^verbatim>\<open>ebooklib\<close> hands it over\<close>

datatype exn = Exception string

datatype item_type = ITEM_DOCUMENT | ITEM_IMAGE | ITEM_OTHER

text \<open>
  An item of the package. \<^verbatim>\<open>get_content()\<close> returns the bytes of the item or raises:
  for a document \<^verbatim>\<open>ebooklib\<close> parses the markup in this call.
\<close>

record item =
  get_id :: string
  get_name :: string
  get_type :: item_type
  get_content :: "exn + string"

text \<open>
  A package that \<^verbatim>\<open>epub.read_epub\<close> has read: the values of the metadata fields
  \<^verbatim>\<open>DC:title\<close> and \<^verbatim>\<open>DC:creator\<close>, the items, and the spine as pairs of an item
  identifier and the \<^verbatim>\<open>linear\<close> attribute.
\<close>

record book =
  dc_title :: "string list"
  dc_creator :: "string list"
  get_items :: "item list"
  spine :: "(string \<times> string) list"

text \<open>
  The dictionary \<^verbatim>\<open>images\<close> is an association list in the order of insertion:
  \<^verbatim>\<open>images[k] = v\<close> is \<^term>\<open>AList.update k v images\<close>, \<^verbatim>\<open>k in images\<close> is
  \<^term>\<open>map_of images k \<noteq> None\<close>, \<^verbatim>\<open>len(images)\<close> is \<^term>\<open>length images\<close> and
  \<^verbatim>\<open>not images\<close> is \<^term>\<open>images = []\<close>.
\<close>

type_synonym image_map = "(string \<times> string) list"

subsection \<open>MimeResolver: \<^verbatim>\<open>_get_image_mime_type\<close>\<close>

definition mime_types :: "(string \<times> string) list" where
  "mime_types =
     [(''jpg'', ''image/jpeg''),
      (''jpeg'', ''image/jpeg''),
      (''png'', ''image/png''),
      (''gif'', ''image/gif''),
      (''bmp'', ''image/bmp''),
      (''svg'', ''image/svg+xml''),
      (''webp'', ''image/webp'')]"

definition get_image_mime_type :: "string \<Rightarrow> string" where
  "get_image_mime_type filename =
     (let ext = last_segment CHR ''.'' (lower filename)
      in case map_of mime_types ext of Some m \<Rightarrow> m | None \<Rightarrow> ''image/jpeg'')"

subsection \<open>ImageCollector: \<^verbatim>\<open>extract_images_from_epub\<close>\<close>

definition max_images :: nat where
  "max_images = 500"

definition max_size :: nat where
  "max_size = 5 * 1024 * 1024"

definition data_url :: "string \<Rightarrow> string \<Rightarrow> string" where
  "data_url filename content =
     ''data:'' @ get_image_mime_type filename @ '';base64,'' @ b64encode content"

text \<open>
  The loop over \<^verbatim>\<open>book.get_items()\<close>, with the dictionary and \<^verbatim>\<open>processed_count\<close> as
  its state. \<^verbatim>\<open>break\<close> ends the loop, and \<^verbatim>\<open>continue\<close>, also the one of the handler of
  an exception, goes on with the next item.
\<close>

fun collect_images :: "item list \<Rightarrow> image_map \<Rightarrow> nat \<Rightarrow> image_map \<times> nat" where
  "collect_images [] images processed_count = (images, processed_count)"
| "collect_images (item # rest) images processed_count =
     (if get_type item = ITEM_IMAGE then
        if processed_count \<ge> max_images then (images, processed_count)
        else (case get_content item of
          Inl e \<Rightarrow> collect_images rest images processed_count
        | Inr content \<Rightarrow>
            let filename = get_name item in
            if length content > max_size then collect_images rest images processed_count
            else
              let base_name = last_segment CHR ''/'' filename;
                  images = AList.update filename (data_url filename content) images;
                  images = (if base_name \<noteq> filename
                            then AList.update base_name (data_url filename content) images
                            else images)
              in collect_images rest images (processed_count + 1))
      else collect_images rest images processed_count)"

definition extract_images_from_epub :: "book \<Rightarrow> image_map" where
  "extract_images_from_epub book = fst (collect_images (get_items book) [] 0)"

subsection \<open>ReferenceRewriter: \<^verbatim>\<open>_replace_image_references\<close>\<close>

definition quotes :: string where
  "quotes = [CHR 0x22, CHR 0x27]"

text \<open>The pattern \<^verbatim>\<open><img[^>]*src\s*=\s*["\']([^"\']+)["\'][^>]*>\<close>, under \<^verbatim>\<open>re.IGNORECASE\<close>.\<close>

definition img_pattern :: "tok list" where
  "img_pattern =
     liti ''<img'' @ [Star (NoneOf ''>'')] @ liti ''src'' @ [Star Space] @ liti ''='' @
     [Star Space, One (AnyOf quotes), GroupOpen, Plus (NoneOf quotes), GroupClose,
      One (AnyOf quotes), Star (NoneOf ''>'')] @ liti ''>''"

text \<open>The pattern \<^verbatim>\<open>src\s*=\s*["\'][^"\']+["\']\<close>, with no flag.\<close>

definition src_pattern :: "tok list" where
  "src_pattern =
     lit ''src'' @ [Star Space] @ lit ''='' @
     [Star Space, One (AnyOf quotes), Plus (NoneOf quotes), One (AnyOf quotes)]"

definition possible_keys :: "string \<Rightarrow> string list" where
  "possible_keys src =
     (let possible_keys =
            [src,
             last_segment CHR ''/'' src,
             replace ''../'' '''' src,
             replace ''./'' '''' src,
             lstrip CHR ''/'' src,
             replace ''images/'' '''' src,
             replace ''Images/'' '''' src,
             replace ''IMAGES/'' '''' src];
          base_filename = last_segment CHR ''/'' src;
          possible_keys = (if base_filename \<notin> set possible_keys
                           then possible_keys @ [base_filename] else possible_keys)
      in take 10 (map fst (fromkeys possible_keys)))"

text \<open>
  The loop \<^verbatim>\<open>for key in possible_keys: if key and key in images: ...\<close>: the first key
  that is not empty and is in the dictionary, with its value.
\<close>

fun find_image :: "image_map \<Rightarrow> string list \<Rightarrow> (string \<times> string) option" where
  "find_image images [] = None"
| "find_image images (key # keys) =
     (if key \<noteq> [] then
        (case map_of images key of
           Some v \<Rightarrow> Some (key, v)
         | None \<Rightarrow> find_image images keys)
      else find_image images keys)"

text \<open>
  The callback \<^verbatim>\<open>replace_img_src(match)\<close>, as a function of the groups 0 and 1 of the
  match. The template of the first \<^verbatim>\<open>re.sub\<close> holds a value of the dictionary. \<^verbatim>\<open>re\<close>
  expands the backslashes of a template; the dictionaries that
  \<^verbatim>\<open>extract_images_from_epub\<close> builds hold none. The model covers a template with a
  backslash by the branch of a malformed one: \<^verbatim>\<open>re.error\<close> is raised, and the handler
  returns the tag as it is.
\<close>

definition replace_img_src :: "image_map \<Rightarrow> string \<Rightarrow> string \<Rightarrow> string" where
  \<open>replace_img_src images full_tag src =
     (if prefix ''data:'' src then full_tag
      else case find_image images (possible_keys src) of
        Some (key, v) \<Rightarrow>
          (let escaped_image_data = replace ''"'' ''&quot;'' v
           in if CHR 0x5C \<in> set escaped_image_data then full_tag
              else sub_first src_pattern (''src="'' @ escaped_image_data @ ''"'') full_tag)
      | None \<Rightarrow> sub_first src_pattern ''src="#"'' full_tag)\<close>

text \<open>
  \<^verbatim>\<open>_replace_image_references(content, images)\<close>. The handler of \<^verbatim>\<open>RecursionError\<close> is not
  modelled: the matcher of \<^verbatim>\<open>re\<close> does not recurse, and the callback catches every
  exception of its own.
\<close>

definition replace_image_references :: "string \<Rightarrow> image_map \<Rightarrow> string" where
  "replace_image_references content images =
     (if images = [] then content
      else sub img_pattern (replace_img_src images) content)"

subsection \<open>FragmentSanitizer: \<^verbatim>\<open>_clean_html_content\<close>\<close>

text \<open>
  The patterns \<^verbatim>\<open><\?xml[^>]*\?>\<close> and \<^verbatim>\<open><!DOCTYPE[^>]*>\<close> with no flag, and
  \<^verbatim>\<open><body[^>]*>(.*?)</body>\<close>, \<^verbatim>\<open><html[^>]*>\<close>, \<^verbatim>\<open></html>\<close> and
  \<^verbatim>\<open><head[^>]*>.*?</head>\<close> under \<^verbatim>\<open>re.IGNORECASE\<close>, the first and the last of these
  four under \<^verbatim>\<open>re.DOTALL\<close> too.
\<close>

definition xml_pattern :: "tok list" where
  "xml_pattern = lit ''<?xml'' @ [Star (NoneOf ''>'')] @ lit ''?>''"

definition doctype_pattern :: "tok list" where
  "doctype_pattern = lit ''<!DOCTYPE'' @ [Star (NoneOf ''>'')] @ lit ''>''"

definition body_pattern :: "tok list" where
  "body_pattern =
     liti ''<body'' @ [Star (NoneOf ''>'')] @ liti ''>'' @
     [GroupOpen, LazyStar AnyChar, GroupClose] @ liti ''</body>''"

definition html_open_pattern :: "tok list" where
  "html_open_pattern = liti ''<html'' @ [Star (NoneOf ''>'')] @ liti ''>''"

definition html_close_pattern :: "tok list" where
  "html_close_pattern = liti ''</html>''"

definition head_pattern :: "tok list" where
  "head_pattern =
     liti ''<head'' @ [Star (NoneOf ''>'')] @ liti ''>'' @ [LazyStar AnyChar] @ liti ''</head>''"

text \<open>The replacement \<^verbatim>\<open>''\<close> of a match.\<close>

definition delete :: "string \<Rightarrow> string \<Rightarrow> string" where
  "delete m g = []"

definition clean_html_content :: "string \<Rightarrow> string" where
  "clean_html_content content =
     (let content = sub xml_pattern delete content;
          content = sub doctype_pattern delete content
      in case search body_pattern content of
        Some (i, body_match) \<Rightarrow> group1 (drop i content) body_match
      | None \<Rightarrow>
          let content = sub html_open_pattern delete content;
              content = sub html_close_pattern delete content;
              content = sub head_pattern delete content
          in content)"

subsection \<open>ContentAssembler: \<^verbatim>\<open>extract_epub_content\<close>\<close>

text \<open>The default author, four characters of three bytes each.\<close>

definition unknown_author :: string where
  "unknown_author =
     [CHR 0xE6, CHR 0x9C, CHR 0xAA, CHR 0xE7, CHR 0x9F, CHR 0xA5,
      CHR 0xE4, CHR 0xBD, CHR 0x9C, CHR 0xE8, CHR 0x80, CHR 0x85]"

text \<open>The head of the document, the f-string of the source with its line breaks and indentation.\<close>

definition html_head :: "string \<Rightarrow> string \<Rightarrow> string" where
  \<open>html_head title author =
      nl @
      ''            <!DOCTYPE html>'' @ nl @
      ''            <html>'' @ nl @
      ''            <head>'' @ nl @
      ''                <meta charset="utf-8">'' @ nl @
      ''                <title>'' @ title @ ''</title>'' @ nl @
      ''                <style>'' @ nl @
      ''                    body {'' @ nl @
      ''                        font-family: "SimSun", "'' @ [CHR 0xE5, CHR 0xAE, CHR 0x8B] @ [CHR 0xE4, CHR 0xBD, CHR 0x93] @ ''", serif;'' @ nl @
      ''                        font-size: 12pt;'' @ nl @
      ''                        line-height: 1.6;'' @ nl @
      ''                        margin: 2cm;'' @ nl @
      ''                        text-align: justify;'' @ nl @
      ''                    }'' @ nl @
      ''                    h1, h2, h3, h4, h5, h6 {'' @ nl @
      ''                        font-weight: bold;'' @ nl @
      ''                        margin-top: 1em;'' @ nl @
      ''                        margin-bottom: 0.5em;'' @ nl @
      ''                    }'' @ nl @
      ''                    h1 { font-size: 18pt; }'' @ nl @
      ''                    h2 { font-size: 16pt; }'' @ nl @
      ''                    h3 { font-size: 14pt; }'' @ nl @
      ''                    p { margin: 0.5em 0; }'' @ nl @
      ''                    img {'' @ nl @
      ''                        max-width: 100%;'' @ nl @
      ''                        height: auto;'' @ nl @
      ''                        display: block;'' @ nl @
      ''                        margin: 1em auto;'' @ nl @
      ''                    }'' @ nl @
      ''                    .title-page {'' @ nl @
      ''                        text-align: center;'' @ nl @
      ''                        margin-bottom: 2em;'' @ nl @
      ''                    }'' @ nl @
      ''                    .title { font-size: 24pt; font-weight: bold; }'' @ nl @
      ''                    .author { font-size: 16pt; margin-top: 1em; }'' @ nl @
      ''                    @page {'' @ nl @
      ''                        margin: 2cm;'' @ nl @
      ''                        @bottom-center {'' @ nl @
      ''                            content: counter(page);'' @ nl @
      ''                        }'' @ nl @
      ''                    }'' @ nl @
      ''                </style>'' @ nl @
      ''            </head>'' @ nl @
      ''            <body>'' @ nl @
      ''                <div class="title-page">'' @ nl @
      ''                    <div class="title">'' @ title @ ''</div>'' @ nl @
      ''                    <div class="author">'' @ author @ ''</div>'' @ nl @
      ''                </div>'' @ nl @
      ''            ''\<close>

definition html_tail :: string where
  "html_tail =
      nl @
      ''            </body>'' @ nl @
      ''            </html>'' @ nl @
      ''            ''"

text \<open>
  The dictionary \<^verbatim>\<open>spine_order\<close>: the loop over \<^verbatim>\<open>enumerate(book.spine)\<close> stores the index
  of every identifier, a later index over an earlier one.
\<close>

definition spine_order :: "(string \<times> string) list \<Rightarrow> (string \<times> nat) list" where
  "spine_order sp =
     foldl (\<lambda>d (index, (item_id, linear)). AList.update item_id index d) [] (enumerate 0 sp)"

text \<open>The key \<^verbatim>\<open>lambda doc: spine_order.get(doc.get_id(), 999)\<close>.\<close>

definition sort_rank :: "(string \<times> nat) list \<Rightarrow> item \<Rightarrow> nat" where
  "sort_rank order doc = (case map_of order (get_id doc) of Some index \<Rightarrow> index | None \<Rightarrow> 999)"

text \<open>
  \<^verbatim>\<open>documents.sort(key=...)\<close> when the spine is not empty. The sort of Python is stable,
  and so is \<^const>\<open>sort_key\<close>; a stable sort has one result.
\<close>

definition sort_documents :: "book \<Rightarrow> item list \<Rightarrow> item list" where
  "sort_documents book documents =
     (if spine book \<noteq> [] then sort_key (sort_rank (spine_order (spine book))) documents
      else documents)"

text \<open>
  The loop over the documents, with \<^verbatim>\<open>html_content\<close> as its state: an exception of
  \<^verbatim>\<open>get_content\<close> is caught and the loop goes on with the next document.
\<close>

fun add_documents :: "image_map \<Rightarrow> item list \<Rightarrow> string \<Rightarrow> string" where
  "add_documents images [] html_content = html_content"
| "add_documents images (item # rest) html_content =
     (case get_content item of
        Inl e \<Rightarrow> add_documents images rest html_content
      | Inr bytes \<Rightarrow>
          let content = decode_utf8_ignore bytes;
              cleaned_content = clean_html_content content;
              content_with_images = replace_image_references cleaned_content images
          in add_documents images rest (html_content @ content_with_images))"

text \<open>Paths are strings. \<^verbatim>\<open>Path.stem\<close> and \<^verbatim>\<open>Path.parent\<close> of \<^verbatim>\<open>pathlib\<close>:\<close>

definition path_stem :: "string \<Rightarrow> string" where
  "path_stem p =
     (let name = last_segment CHR ''/'' p;
          suffix = last_segment CHR ''.'' name;
          i = length name - length suffix - 1
      in if CHR ''.'' \<in> set name \<and> 0 < i \<and> suffix \<noteq> [] then take i name else name)"

definition path_parent :: "string \<Rightarrow> string" where
  "path_parent p =
     (if CHR ''/'' \<in> set p
      then (let d = take (length p - length (last_segment CHR ''/'' p) - 1) p
            in if d = [] then ''/'' else d)
      else ''.'')"

text \<open>
  \<^verbatim>\<open>extract_epub_content\<close>, given what \<^verbatim>\<open>epub.read_epub\<close> answered for the path: the
  package, or the exception it raised. \<^verbatim>\<open>None\<close> is returned for the exception only.
\<close>

definition extract_epub_content :: "(exn + book) \<Rightarrow> string \<Rightarrow> string option" where
  "extract_epub_content read epub_path =
     (case read of
        Inl e \<Rightarrow> None
      | Inr book \<Rightarrow>
          let title = (case dc_title book of t # _ \<Rightarrow> t | [] \<Rightarrow> path_stem epub_path);
              author = (case dc_creator book of a # _ \<Rightarrow> a | [] \<Rightarrow> unknown_author);
              images = extract_images_from_epub book;
              html_content = html_head title author;
              documents = filter (\<lambda>item. get_type item = ITEM_DOCUMENT) (get_items book);
              documents = sort_documents book documents;
              html_content = add_documents images documents html_content
          in Some (html_content @ html_tail))"

subsection \<open>ConversionOrchestrator: \<^verbatim>\<open>is_already_converted\<close>, \<^verbatim>\<open>convert_epub_to_pdf\<close>, \<^verbatim>\<open>convert_all\<close>\<close>

text \<open>
  The file system holds the modification time of every file that exists: \<^verbatim>\<open>exists()\<close> is
  true and \<^verbatim>\<open>stat()\<close> succeeds for the paths that have one. What the converter gets from
  outside is a record: the path arithmetic of \<^verbatim>\<open>pathlib\<close>, which may raise
  (\<^verbatim>\<open>epub_path.relative_to(self.source_dir)\<close> and
  \<^verbatim>\<open>self.output_dir / relative_path.with_suffix('.pdf')\<close>), the call
  \<^verbatim>\<open>pdf_path.parent.mkdir(parents=True, exist_ok=True)\<close>, which makes directories and no
  file and may raise for what the file system holds, the reader of \<^verbatim>\<open>ebooklib\<close>, and the
  renderer \<^verbatim>\<open>HTML(string, base_url).write_pdf(target)\<close>, which changes the file system
  and may raise.
\<close>

type_synonym fs = "string \<Rightarrow> real option"

record env =
  relative_to :: "string \<Rightarrow> exn + string"
  output_file :: "string \<Rightarrow> exn + string"
  mkdir_parent :: "string \<Rightarrow> fs \<Rightarrow> exn option"
  read_epub :: "string \<Rightarrow> exn + book"
  write_pdf :: "string \<Rightarrow> string \<Rightarrow> string \<Rightarrow> fs \<Rightarrow> exn option \<times> fs"

text \<open>\<^verbatim>\<open>get_output_path\<close> has no handler: what its three calls raise reaches its caller.\<close>

definition get_output_path :: "env \<Rightarrow> fs \<Rightarrow> string \<Rightarrow> exn + string" where
  "get_output_path env files epub_path =
     (case relative_to env epub_path of
        Inl e \<Rightarrow> Inl e
      | Inr relative_path \<Rightarrow>
          (case output_file env relative_path of
             Inl e \<Rightarrow> Inl e
           | Inr pdf_path \<Rightarrow>
               (case mkdir_parent env pdf_path files of
                  Some e \<Rightarrow> Inl e
                | None \<Rightarrow> Inr pdf_path)))"

text \<open>\<^verbatim>\<open>stat()\<close> of a file that does not exist raises.\<close>

definition is_already_converted :: "env \<Rightarrow> fs \<Rightarrow> string \<Rightarrow> exn + bool" where
  "is_already_converted env files epub_path =
     (case get_output_path env files epub_path of
        Inl e \<Rightarrow> Inl e
      | Inr pdf_path \<Rightarrow>
          (case files pdf_path of
             Some pdf_mtime \<Rightarrow>
               (case files epub_path of
                  Some epub_mtime \<Rightarrow> Inr (pdf_mtime \<ge> epub_mtime)
                | None \<Rightarrow> Inl (Exception ''FileNotFoundError''))
           | None \<Rightarrow> Inr False))"

text \<open>\<^verbatim>\<open>convert_epub_to_pdf\<close> catches every exception and returns \<^verbatim>\<open>False\<close> for it.\<close>

definition convert_epub_to_pdf :: "env \<Rightarrow> string \<Rightarrow> fs \<Rightarrow> bool \<times> fs" where
  "convert_epub_to_pdf env epub_path files =
     (case is_already_converted env files epub_path of
        Inl e \<Rightarrow> (False, files)
      | Inr True \<Rightarrow> (True, files)
      | Inr False \<Rightarrow>
          (case extract_epub_content (read_epub env epub_path) epub_path of
             None \<Rightarrow> (False, files)
           | Some html_content \<Rightarrow>
               if html_content = [] then (False, files)
               else (case get_output_path env files epub_path of
                       Inl e \<Rightarrow> (False, files)
                     | Inr pdf_path \<Rightarrow>
                         (case write_pdf env html_content (path_parent epub_path)
                                 pdf_path files of
                            (None, files') \<Rightarrow> (True, files')
                          | (Some e, files') \<Rightarrow> (False, files')))))"

record results =
  total :: nat
  success :: nat
  failed :: nat
  skipped :: nat

text \<open>
  The loop of \<^verbatim>\<open>convert_all\<close> over the files that \<^verbatim>\<open>find_epub_files\<close> found. The call of
  \<^verbatim>\<open>is_already_converted\<close> in the loop is under no handler: its exception, which is that
  of \<^verbatim>\<open>get_output_path\<close> or of \<^verbatim>\<open>stat()\<close>, ends the run.
\<close>

fun convert_files :: "env \<Rightarrow> string list \<Rightarrow> results \<Rightarrow> fs \<Rightarrow> exn + results \<times> fs" where
  "convert_files env [] results files = Inr (results, files)"
| "convert_files env (epub_path # rest) results files =
     (case is_already_converted env files epub_path of
        Inl e \<Rightarrow> Inl e
      | Inr True \<Rightarrow> convert_files env rest (results\<lparr>skipped := skipped results + 1\<rparr>) files
      | Inr False \<Rightarrow>
          (case convert_epub_to_pdf env epub_path files of
             (True, files') \<Rightarrow>
               convert_files env rest (results\<lparr>success := success results + 1\<rparr>) files'
           | (False, files') \<Rightarrow>
               convert_files env rest (results\<lparr>failed := failed results + 1\<rparr>) files'))"

definition convert_all :: "env \<Rightarrow> string list \<Rightarrow> fs \<Rightarrow> exn + results \<times> fs" where
  "convert_all env epub_files files =
     (if epub_files = [] then Inr (\<lparr>total = 0, success = 0, failed = 0, skipped = 0\<rparr>, files)
      else convert_files env epub_files
             \<lparr>total = length epub_files, success = 0, failed = 0, skipped = 0\<rparr> files)"

subsection \<open>Notions used to state the properties\<close>

text \<open>
  What the body of the loop over the documents makes of the bytes of one document: the
  text decoded, cleaned and with its image references replaced.
\<close>

definition render_fragment :: "image_map \<Rightarrow> string \<Rightarrow> string" where
  "render_fragment images bytes =
     replace_image_references (clean_html_content (decode_utf8_ignore bytes)) images"

text \<open>The documents of a package, in the order in which the assembler takes them.\<close>

definition ordered_documents :: "book \<Rightarrow> item list" where
  "ordered_documents book =
     sort_documents book (filter (\<lambda>item. get_type item = ITEM_DOCUMENT) (get_items book))"

text \<open>
  The entries that the collector can register for the items of a package: the data
  reference of an image item whose content can be read and is within the size limit,
  under its path or under its basename.
\<close>

definition accepted_entries :: "item list \<Rightarrow> (string \<times> string) set" where
  "accepted_entries items =
     {(k, data_url (get_name item) content) | k item content.
        item \<in> set items \<and> get_type item = ITEM_IMAGE \<and> get_content item = Inr content \<and>
        length content \<le> max_size \<and>
        (k = get_name item \<or> k = last_segment CHR ''/'' (get_name item))}"

text \<open>A list without its repetitions: every element stays where it first occurs.\<close>

fun dedup :: "'a list \<Rightarrow> 'a list" where
  "dedup [] = []"
| "dedup (x # xs) = x # removeAll x (dedup xs)"

text \<open>
  The candidates as the specification words them, to compare with \<^const>\<open>possible_keys\<close>:
  the raw reference, its basename, the reference with any \<^verbatim>\<open>../\<close> removed, with a leading
  \<^verbatim>\<open>./\<close> removed, with a single leading \<^verbatim>\<open>/\<close> removed, with a leading \<^verbatim>\<open>images/\<close>
  removed in three spellings, then the basename again if not already present, without
  repetitions and at most 10.
\<close>

definition remove_leading :: "string \<Rightarrow> string \<Rightarrow> string" where
  "remove_leading p s = (if prefix p s then drop (length p) s else s)"

definition candidates_as_specified :: "string \<Rightarrow> string list" where
  "candidates_as_specified src =
     (let candidates =
            [src,
             last_segment CHR ''/'' src,
             replace ''../'' '''' src,
             remove_leading ''./'' src,
             remove_leading ''/'' src,
             remove_leading ''images/'' src,
             remove_leading ''Images/'' src,
             remove_leading ''IMAGES/'' src];
          candidates = (if last_segment CHR ''/'' src \<notin> set candidates
                        then candidates @ [last_segment CHR ''/'' src] else candidates)
      in take 10 (dedup candidates))"

text \<open>A match moved to the right by \<open>n\<close> characters.\<close>

definition shiftn :: "nat \<Rightarrow> mres \<Rightarrow> mres" where
  "shiftn n r = (n + fst r, map_option (\<lambda>(b, e). (n + b, n + e)) (snd r))"

subsection \<open>Concrete packages and runs\<close>

text \<open>
  A package of three documents and two images. The second document cannot be read. The
  spine names the third document, then the first. The second image is one byte over the
  limit of 5 MiB.
\<close>

definition demo_book :: book where
  \<open>demo_book =
     \<lparr>dc_title = [''Demo''], dc_creator = [],
      get_items =
        [\<lparr>get_id = ''ch1'', get_name = ''text/ch1.xhtml'', get_type = ITEM_DOCUMENT,
          get_content = Inr ''<html><body><p>One</p><img src="../images/a.png"/></body></html>''\<rparr>,
         \<lparr>get_id = ''ch2'', get_name = ''text/ch2.xhtml'', get_type = ITEM_DOCUMENT,
          get_content = Inl (Exception ''XMLSyntaxError'')\<rparr>,
         \<lparr>get_id = ''img1'', get_name = ''images/a.png'', get_type = ITEM_IMAGE,
          get_content = Inr ''abc''\<rparr>,
         \<lparr>get_id = ''css'', get_name = ''style.css'', get_type = ITEM_OTHER,
          get_content = Inr ''p {}''\<rparr>,
         \<lparr>get_id = ''img2'', get_name = ''big.jpg'', get_type = ITEM_IMAGE,
          get_content = Inr (replicate 5242881 CHR ''x'')\<rparr>,
         \<lparr>get_id = ''ch3'', get_name = ''text/ch3.xhtml'', get_type = ITEM_DOCUMENT,
          get_content = Inr ''<p>Three</p><img src="missing.gif">''\<rparr>],
      spine = [(''ch3'', ''yes''), (''ch1'', ''yes'')]\<rparr>\<close>

text \<open>
  A run: the books are in \<^verbatim>\<open>source_book\<close> and the output of a book is named after it in
  \<^verbatim>\<open>output_book\<close>, which \<^verbatim>\<open>mkdir\<close> cannot make when a file has its name; one input file is
  not a package; the renderer writes its target at time 20 and never raises.
\<close>

definition demo_env :: env where
  "demo_env =
     \<lparr>relative_to = (\<lambda>p. if prefix ''source_book/'' p then Inr (drop 12 p)
                          else Inl (Exception ''ValueError'')),
      output_file = (\<lambda>p. Inr (''output_book/'' @ path_stem p @ ''.pdf'')),
      mkdir_parent = (\<lambda>p files. if files (path_parent p) = None then None
                                else Some (Exception ''FileExistsError'')),
      read_epub = (\<lambda>p. if p = ''source_book/broken.epub''
                        then Inl (Exception ''BadZipFile'') else Inr demo_book),
      write_pdf = (\<lambda>html base target files. (None, files(target \<mapsto> 20)))\<rparr>"

definition demo_files :: fs where
  "demo_files =
     [''source_book/new.epub'' \<mapsto> 10,
      ''source_book/broken.epub'' \<mapsto> 11,
      ''source_book/old.epub'' \<mapsto> 5,
      ''output_book/old.pdf'' \<mapsto> 7]"

text \<open>A package of 251 images, each in the directory \<^verbatim>\<open>images\<close> and with no content.\<close>

definition heavy_name :: "nat \<Rightarrow> string" where
  "heavy_name i = replicate (Suc i) CHR ''i''"

definition heavy_path :: "nat \<Rightarrow> string" where
  "heavy_path i = ''images/'' @ heavy_name i"

definition heavy_item :: "nat \<Rightarrow> item" where
  "heavy_item i =
     \<lparr>get_id = heavy_name i, get_name = heavy_path i, get_type = ITEM_IMAGE,
      get_content = Inr []\<rparr>"

definition image_heavy_book :: book where
  "image_heavy_book =
     \<lparr>dc_title = [], dc_creator = [], get_items = map heavy_item [0..<251], spine = []\<rparr>"

text \<open>
  A package of 1001 documents: a page of notes, which the spine does not name, and then
  1000 chapters, which the spine names in order.
\<close>

definition chapter_id :: "nat \<Rightarrow> string" where
  "chapter_id i = replicate (Suc i) CHR ''c''"

definition chapter_doc :: "nat \<Rightarrow> item" where
  "chapter_doc i =
     \<lparr>get_id = chapter_id i, get_name = ''text/'' @ chapter_id i @ ''.xhtml'',
      get_type = ITEM_DOCUMENT, get_content = Inr ''<p>chapter</p>''\<rparr>"

definition notes_doc :: item where
  "notes_doc =
     \<lparr>get_id = ''notes'', get_name = ''text/notes.xhtml'', get_type = ITEM_DOCUMENT,
      get_content = Inr ''<p>notes</p>''\<rparr>"

definition long_book :: book where
  "long_book =
     \<lparr>dc_title = [], dc_creator = [],
      get_items = notes_doc # map chapter_doc [0..<1000],
      spine = map (\<lambda>i. (chapter_id i, ''yes'')) [0..<1000]\<rparr>"

section \<open>Properties\<close>

subsection \<open>Strings\<close>

lemma lower_char_dot: "lower_char c = CHR ''.'' \<longleftrightarrow> c = CHR ''.''"
  by (cases c) (auto simp: lower_char_def ascii_uppercase_def)

lemma dot_in_lower: "CHR ''.'' \<in> set (lower s) \<longleftrightarrow> CHR ''.'' \<in> set s"
  unfolding lower_def set_map image_iff by (metis lower_char_dot)

lemma lower_append: "lower (a @ b) = lower a @ lower b"
  by (simp add: lower_def)

lemma takeWhile_not_sep: "sep \<notin> set s \<Longrightarrow> takeWhile (\<lambda>c. c \<noteq> sep) s = s"
  by (induction s) auto

lemma last_segment_none: "sep \<notin> set s \<Longrightarrow> last_segment sep s = s"
  by (simp add: last_segment_def takeWhile_not_sep)

lemma last_segment_after: "sep \<notin> set b \<Longrightarrow> last_segment sep (a @ sep # b) = b"
  by (simp add: last_segment_def takeWhile_tail takeWhile_not_sep)

lemma last_segment_cases:
  "(sep \<notin> set s \<and> last_segment sep s = s) \<or>
   (\<exists>a. s = a @ sep # last_segment sep s \<and> sep \<notin> set (last_segment sep s))"
proof (cases "sep \<in> set s")
  case False
  then show ?thesis by (simp add: last_segment_none)
next
  case True
  then have "sep \<in> set (rev s)" by simp
  then obtain ys zs where split: "rev s = ys @ sep # zs" and nin: "sep \<notin> set ys"
    by (meson split_list_first)
  have tw: "takeWhile (\<lambda>c. c \<noteq> sep) (rev s) = ys"
    using nin by (simp add: split takeWhile_tail takeWhile_not_sep)
  have "s = rev zs @ sep # rev ys"
    using split by (metis rev_append rev.simps(2) rev_rev_ident append.assoc append_Cons append_Nil)
  with tw nin show ?thesis
    by (auto simp: last_segment_def)
qed

subsection \<open>MimeResolver\<close>

text \<open>
  C7, as stated, at a filename with no extension: the name \<^verbatim>\<open>png\<close> holds no dot, and the
  resolver answers \<^verbatim>\<open>image/png\<close>, not the default \<^verbatim>\<open>image/jpeg\<close>.
\<close>

theorem mime_missing_extension_counterexample:
  "CHR ''.'' \<notin> set ''png'' \<and> get_image_mime_type ''png'' \<noteq> ''image/jpeg''"
  by (simp add: get_image_mime_type_def last_segment_def lower_def lower_char_def
      ascii_uppercase_def mime_types_def)

lemma mime_lookup:
  "(case map_of mime_types e of Some m \<Rightarrow> m | None \<Rightarrow> ''image/jpeg'') =
     (if e = ''jpg'' \<or> e = ''jpeg'' then ''image/jpeg''
      else if e = ''png'' then ''image/png''
      else if e = ''gif'' then ''image/gif''
      else if e = ''bmp'' then ''image/bmp''
      else if e = ''svg'' then ''image/svg+xml''
      else if e = ''webp'' then ''image/webp''
      else ''image/jpeg'')"
  by (simp add: mime_types_def)

text \<open>
  C7, amended: the extension is the text after the last dot, or the whole filename when
  it holds no dot. The resolver lowercases it, answers from the fixed table, and answers
  \<^verbatim>\<open>image/jpeg\<close> for every other extension. The function is total: there is no error path.
\<close>

theorem mime_type_by_extension:
  assumes "CHR ''.'' \<notin> set e" and "filename = stem @ ''.'' @ e \<or> filename = e"
  shows "get_image_mime_type filename =
     (if lower e = ''jpg'' \<or> lower e = ''jpeg'' then ''image/jpeg''
      else if lower e = ''png'' then ''image/png''
      else if lower e = ''gif'' then ''image/gif''
      else if lower e = ''bmp'' then ''image/bmp''
      else if lower e = ''svg'' then ''image/svg+xml''
      else if lower e = ''webp'' then ''image/webp''
      else ''image/jpeg'')"
proof -
  have nodot: "CHR ''.'' \<notin> set (lower e)"
    using assms(1) by (simp add: dot_in_lower)
  have "last_segment CHR ''.'' (lower filename) = lower e"
    using assms(2)
  proof
    assume "filename = stem @ ''.'' @ e"
    then have "lower filename = lower stem @ CHR ''.'' # lower e"
      by (simp add: lower_def lower_char_dot)
    then show ?thesis using nodot by (simp add: last_segment_after)
  next
    assume "filename = e"
    then show ?thesis using nodot by (simp add: last_segment_none)
  qed
  then show ?thesis
    unfolding get_image_mime_type_def Let_def by (simp only: mime_lookup)
qed

theorem mime_type_by_extension_witness:
  "get_image_mime_type ''OEBPS/Images/cover.v2.PNG'' = ''image/png''"
proof -
  have "CHR ''.'' \<notin> set ''PNG''" by simp
  moreover have "''OEBPS/Images/cover.v2.PNG'' = ''OEBPS/Images/cover.v2'' @ ''.'' @ ''PNG'' \<or>
      ''OEBPS/Images/cover.v2.PNG'' = ''PNG''" by simp
  ultimately show ?thesis
    using mime_type_by_extension [of "''PNG''" "''OEBPS/Images/cover.v2.PNG''" "''OEBPS/Images/cover.v2''"]
    by (simp add: lower_def lower_char_def ascii_uppercase_def)
qed

subsection \<open>ContentAssembler: fragments that cannot be read\<close>

lemma add_documents_concat:
  "add_documents images docs html =
     html @ concat (List.map_filter
       (\<lambda>item. case get_content item of Inl e \<Rightarrow> None
                | Inr bytes \<Rightarrow> Some (render_fragment images bytes)) docs)"
proof (induction docs arbitrary: html)
  case Nil
  then show ?case by (simp add: List.map_filter_simps)
next
  case (Cons d docs)
  show ?case
  proof (cases "get_content d")
    case (Inl e)
    with Cons show ?thesis by (simp add: List.map_filter_simps)
  next
    case (Inr bytes)
    with Cons show ?thesis by (simp add: List.map_filter_simps render_fragment_def Let_def)
  qed
qed

lemma html_head_nonempty: "html_head title author \<noteq> []"
  by (simp add: html_head_def nl_def)

lemma extract_epub_content_nonempty:
  "\<exists>html. extract_epub_content (Inr book) epub_path = Some html \<and> html \<noteq> []"
  by (simp add: extract_epub_content_def Let_def add_documents_concat html_head_nonempty)

text \<open>
  C5: for a package that was read, the assembler returns a document, whatever its items
  are. The document is the head, the fragments of the documents whose content could be
  read, in order, and the tail: a document whose \<^verbatim>\<open>get_content\<close> raises adds nothing and
  stops nothing. The conversion of the file does not fail for it either: when the file is
  not up to date and the renderer does not raise at its output path,
  \<^verbatim>\<open>convert_epub_to_pdf\<close> returns \<^verbatim>\<open>True\<close>.
\<close>

theorem bad_fragments_are_omitted:
  "(\<exists>html. extract_epub_content (Inr book) epub_path = Some html \<and> html \<noteq> [] \<and>
      html =
        html_head (case dc_title book of t # _ \<Rightarrow> t | [] \<Rightarrow> path_stem epub_path)
                  (case dc_creator book of a # _ \<Rightarrow> a | [] \<Rightarrow> unknown_author)
        @ concat (List.map_filter
            (\<lambda>item. case get_content item of
                       Inl e \<Rightarrow> None
                     | Inr bytes \<Rightarrow> Some (render_fragment (extract_images_from_epub book) bytes))
            (ordered_documents book))
        @ html_tail)
   \<and> (is_already_converted env files epub_path = Inr False \<and>
       read_epub env epub_path = Inr book \<and>
       (\<forall>pdf_path html. get_output_path env files epub_path = Inr pdf_path \<longrightarrow>
          fst (write_pdf env html (path_parent epub_path) pdf_path files) = None)
       \<longrightarrow> fst (convert_epub_to_pdf env epub_path files) = True)"
proof (intro conjI impI)
  let ?html = "html_head (case dc_title book of t # _ \<Rightarrow> t | [] \<Rightarrow> path_stem epub_path)
                  (case dc_creator book of a # _ \<Rightarrow> a | [] \<Rightarrow> unknown_author)
        @ concat (List.map_filter
            (\<lambda>item. case get_content item of
                       Inl e \<Rightarrow> None
                     | Inr bytes \<Rightarrow> Some (render_fragment (extract_images_from_epub book) bytes))
            (ordered_documents book))
        @ html_tail"
  have ex: "extract_epub_content (Inr book) epub_path = Some ?html"
    by (simp add: extract_epub_content_def Let_def add_documents_concat ordered_documents_def)
  have ne: "?html \<noteq> []"
    using html_head_nonempty by simp
  from ex ne
  show "\<exists>html. extract_epub_content (Inr book) epub_path = Some html \<and> html \<noteq> [] \<and> html = ?html"
    by blast
  assume a: "is_already_converted env files epub_path = Inr False \<and>
       read_epub env epub_path = Inr book \<and>
       (\<forall>pdf_path html. get_output_path env files epub_path = Inr pdf_path \<longrightarrow>
          fst (write_pdf env html (path_parent epub_path) pdf_path files) = None)"
  then obtain pdf_path where out: "get_output_path env files epub_path = Inr pdf_path"
    by (cases "get_output_path env files epub_path") (auto simp: is_already_converted_def)
  obtain e files1 where wr: "write_pdf env ?html (path_parent epub_path) pdf_path files
      = (e, files1)"
    by (cases "write_pdf env ?html (path_parent epub_path) pdf_path files")
  with a out have "e = None" by (metis fst_conv)
  with a ex ne wr out show "fst (convert_epub_to_pdf env epub_path files) = True"
    by (simp add: convert_epub_to_pdf_def)
qed

lemma demo_images:
  "extract_images_from_epub demo_book =
     [(''images/a.png'', ''data:image/png;base64,YWJj''),
      (''a.png'', ''data:image/png;base64,YWJj'')]"
  by (simp add: extract_images_from_epub_def demo_book_def max_images_def max_size_def Let_def
      last_segment_def data_url_def get_image_mime_type_def lower_def lower_char_def
      ascii_uppercase_def mime_types_def byte_def b64_digit_def b64_alphabet_def)

lemma demo_order:
  "map get_id (ordered_documents demo_book) = [''ch3'', ''ch1'', ''ch2'']"
  by (simp add: ordered_documents_def sort_documents_def demo_book_def spine_order_def
      sort_rank_def enumerate_eq_zip)

lemma demo_contents:
  \<open>map get_content (ordered_documents demo_book) =
     [Inr ''<p>Three</p><img src="missing.gif">'',
      Inr ''<html><body><p>One</p><img src="../images/a.png"/></body></html>'',
      Inl (Exception ''XMLSyntaxError'')]\<close>
  by (simp add: ordered_documents_def sort_documents_def demo_book_def spine_order_def
      sort_rank_def enumerate_eq_zip)

lemma demo_fragment_one:
  \<open>render_fragment
     [(''images/a.png'', ''data:image/png;base64,YWJj''),
      (''a.png'', ''data:image/png;base64,YWJj'')]
     ''<html><body><p>One</p><img src="../images/a.png"/></body></html>''
   = ''<p>One</p><img src="data:image/png;base64,YWJj"/>''\<close>
  by code_simp

lemma demo_fragment_three:
  \<open>render_fragment
     [(''images/a.png'', ''data:image/png;base64,YWJj''),
      (''a.png'', ''data:image/png;base64,YWJj'')]
     ''<p>Three</p><img src="missing.gif">''
   = ''<p>Three</p><img src="#">''\<close>
  by code_simp

lemma map_filter_by_content:
  "List.map_filter (\<lambda>item. case get_content item of Inl e \<Rightarrow> None | Inr bytes \<Rightarrow> Some (f bytes)) docs
   = List.map_filter (\<lambda>c. case c of Inl e \<Rightarrow> None | Inr bytes \<Rightarrow> Some (f bytes))
       (map get_content docs)"
  by (induction docs) (auto simp: List.map_filter_simps split: sum.splits)

lemma demo_output_path:
  "files ''output_book'' = None \<Longrightarrow>
   get_output_path demo_env files ''source_book/new.epub'' = Inr ''output_book/new.pdf'' \<and>
   get_output_path demo_env files ''source_book/broken.epub'' = Inr ''output_book/broken.pdf'' \<and>
   get_output_path demo_env files ''source_book/old.epub'' = Inr ''output_book/old.pdf''"
  by (simp add: get_output_path_def demo_env_def path_stem_def path_parent_def last_segment_def
      Let_def)

lemma demo_no_directory_file: "demo_files ''output_book'' = None"
  by (simp add: demo_files_def)

lemma demo_paths:
  "get_output_path demo_env demo_files ''source_book/new.epub'' = Inr ''output_book/new.pdf''"
  "get_output_path demo_env demo_files ''source_book/broken.epub'' = Inr ''output_book/broken.pdf''"
  "get_output_path demo_env demo_files ''source_book/old.epub'' = Inr ''output_book/old.pdf''"
  using demo_output_path [of demo_files] demo_no_directory_file by simp_all

lemma demo_not_converted:
  "is_already_converted demo_env demo_files ''source_book/new.epub'' = Inr False"
  by (simp add: is_already_converted_def demo_paths)
     (simp add: demo_files_def)

theorem bad_fragments_are_omitted_witness:
  \<open>extract_epub_content (Inr demo_book) ''source_book/new.epub'' =
     Some (html_head ''Demo'' unknown_author
           @ ''<p>Three</p><img src="#">''
           @ ''<p>One</p><img src="data:image/png;base64,YWJj"/>''
           @ html_tail)
   \<and> fst (convert_epub_to_pdf demo_env ''source_book/new.epub'' demo_files) = True\<close>
proof -
  note inst = bad_fragments_are_omitted
    [of demo_book "''source_book/new.epub''" demo_env demo_files]
  have titles: "dc_title demo_book = [''Demo'']" "dc_creator demo_book = []"
    by (simp_all add: demo_book_def)
  have first: "extract_epub_content (Inr demo_book) ''source_book/new.epub'' =
     Some (html_head ''Demo'' unknown_author
           @ ''<p>Three</p><img src=\"#\">''
           @ ''<p>One</p><img src=\"data:image/png;base64,YWJj\"/>''
           @ html_tail)"
    using inst
    by (simp add: titles demo_images map_filter_by_content demo_contents
        List.map_filter_simps demo_fragment_one demo_fragment_three)
  have "read_epub demo_env ''source_book/new.epub'' = Inr demo_book"
    by (simp add: demo_env_def)
  moreover have "\<forall>pdf_path html.
      get_output_path demo_env demo_files ''source_book/new.epub'' = Inr pdf_path \<longrightarrow>
      fst (write_pdf demo_env html (path_parent ''source_book/new.epub'') pdf_path demo_files)
        = None"
    by (simp add: demo_env_def)
  ultimately have "fst (convert_epub_to_pdf demo_env ''source_book/new.epub'' demo_files) = True"
    using inst demo_not_converted by blast
  with first show ?thesis by simp
qed

subsection \<open>ConversionOrchestrator: what is skipped, and the counters\<close>

lemma get_output_path_same:
  "get_output_path env f p = Inr a \<Longrightarrow> get_output_path env g p = Inr b \<Longrightarrow> a = b"
  by (auto simp: get_output_path_def split: sum.splits option.splits)

lemma is_already_converted_True:
  "is_already_converted env files p = Inr True \<longleftrightarrow>
     (\<exists>pdf_path pdf_mtime epub_mtime. get_output_path env files p = Inr pdf_path \<and>
        files pdf_path = Some pdf_mtime \<and> files p = Some epub_mtime \<and>
        pdf_mtime \<ge> epub_mtime)"
  by (auto simp: is_already_converted_def split: sum.splits option.splits)

lemma is_already_converted_at:
  assumes "get_output_path env files p = Inr pdf_path" and "files p = Some epub_mtime"
  shows "is_already_converted env files p =
     Inr (\<exists>pdf_mtime. files pdf_path = Some pdf_mtime \<and> pdf_mtime \<ge> epub_mtime)"
  using assms by (auto simp: is_already_converted_def split: option.splits)

lemma convert_files_single:
  "convert_files env [p] r files =
     (case is_already_converted env files p of
        Inl e \<Rightarrow> Inl e
      | Inr True \<Rightarrow> Inr (r\<lparr>skipped := skipped r + 1\<rparr>, files)
      | Inr False \<Rightarrow>
          (case convert_epub_to_pdf env p files of
             (True, files') \<Rightarrow> Inr (r\<lparr>success := success r + 1\<rparr>, files')
           | (False, files') \<Rightarrow> Inr (r\<lparr>failed := failed r + 1\<rparr>, files')))"
  by (simp split: sum.splits bool.splits prod.splits)

lemma convert_files_append:
  "convert_files env (xs @ ys) r files =
     (case convert_files env xs r files of
        Inl e \<Rightarrow> Inl e
      | Inr (r', files') \<Rightarrow> convert_files env ys r' files')"
  by (induction xs arbitrary: r files) (auto split: sum.splits bool.splits prod.splits)

lemma all_up_to_date_all_skipped:
  assumes "\<forall>p\<in>set epub_files. is_already_converted env files p = Inr True"
  shows "convert_files env epub_files results files =
     Inr (results\<lparr>skipped := skipped results + length epub_files\<rparr>, files)"
  using assms by (induction epub_files arbitrary: results) simp_all

lemma convert_files_failed_mono:
  "convert_files env epub_files r files = Inr (r', files') \<Longrightarrow> failed r \<le> failed r'"
proof (induction epub_files arbitrary: r files)
  case Nil
  then show ?case by simp
next
  case (Cons p rest)
  show ?case
  proof (cases "is_already_converted env files p")
    case (Inl e)
    with Cons.prems show ?thesis by simp
  next
    case (Inr b)
    obtain ok files1 where conv: "convert_epub_to_pdf env p files = (ok, files1)"
      by (cases "convert_epub_to_pdf env p files")
    from Inr conv Cons.prems Cons.IH [of "r\<lparr>skipped := skipped r + 1\<rparr>" files]
      Cons.IH [of "r\<lparr>success := success r + 1\<rparr>" files1]
      Cons.IH [of "r\<lparr>failed := failed r + 1\<rparr>" files1]
    show ?thesis by (cases b; cases ok) auto
  qed
qed

text \<open>
  A conversion that succeeds for a file that is not up to date: when the renderer changes
  its target only, which is no input file, the input files stay as they are and the
  target holds what the renderer left.
\<close>

lemma convert_epub_to_pdf_writes:
  assumes frame: "\<forall>html base target f q.
        q \<noteq> target \<longrightarrow> snd (write_pdf env html base target f) q = f q"
    and conv: "is_already_converted env f p = Inr False"
      "convert_epub_to_pdf env p f = (True, f')"
  shows "\<exists>pdf_path html base. get_output_path env f p = Inr pdf_path \<and>
           fst (write_pdf env html base pdf_path f) = None \<and>
           f' = snd (write_pdf env html base pdf_path f) \<and>
           (\<forall>q. q \<noteq> pdf_path \<longrightarrow> f' q = f q)"
proof -
  from conv(1) obtain pdf_path where out: "get_output_path env f p = Inr pdf_path"
    by (cases "get_output_path env f p") (auto simp: is_already_converted_def)
  from conv out obtain html where
    w: "write_pdf env html (path_parent p) pdf_path f = (None, f')"
    by (auto simp: convert_epub_to_pdf_def split: option.splits if_splits prod.splits)
  have "\<forall>q. q \<noteq> pdf_path \<longrightarrow> f' q = f q"
    using frame w by (metis snd_conv)
  with out w show ?thesis by (metis fst_conv snd_conv)
qed

text \<open>
  A run with no failed file, from a file system in which the input files are those of
  \<open>files0\<close>: the input files stay, every output that was not older than its input stays
  so, and the output of every file of the run is not older than its input afterwards.
  The output path of a file is the one that \<^verbatim>\<open>get_output_path\<close> gives in \<open>files1\<close>.
\<close>

lemma convert_files_up_to_date:
  assumes paths: "\<forall>p\<in>set all. \<exists>pdf_path.
        get_output_path env files1 p = Inr pdf_path \<and> pdf_path \<notin> set all"
    and frame: "\<forall>html base target f q.
        q \<noteq> target \<longrightarrow> snd (write_pdf env html base target f) q = f q"
    and stamp: "\<forall>html base target f.
        fst (write_pdf env html base target f) = None \<longrightarrow>
        (\<exists>t. snd (write_pdf env html base target f) target = Some t \<and>
             (\<forall>p\<in>set all. \<forall>u. files0 p = Some u \<longrightarrow> u \<le> t))"
    and exist: "\<forall>p\<in>set all. files0 p \<noteq> None"
  shows "convert_files env ps r f = Inr (r', f') \<Longrightarrow> failed r' = failed r \<Longrightarrow>
         set ps \<subseteq> set all \<Longrightarrow> \<forall>p\<in>set all. f p = files0 p \<Longrightarrow>
         (\<forall>p\<in>set all. f' p = files0 p) \<and>
         (\<forall>p\<in>set all. \<forall>pdf_path t. get_output_path env files1 p = Inr pdf_path \<longrightarrow>
            f pdf_path = Some t \<longrightarrow> (\<forall>u. files0 p = Some u \<longrightarrow> u \<le> t) \<longrightarrow>
            (\<exists>t'. f' pdf_path = Some t' \<and> (\<forall>u. files0 p = Some u \<longrightarrow> u \<le> t'))) \<and>
         (\<forall>p\<in>set ps. \<forall>pdf_path. get_output_path env files1 p = Inr pdf_path \<longrightarrow>
            (\<exists>t'. f' pdf_path = Some t' \<and> (\<forall>u. files0 p = Some u \<longrightarrow> u \<le> t')))"
proof (induction ps arbitrary: r f)
  case Nil
  then show ?case by simp
next
  case (Cons p rest)
  from Cons.prems(3) have p: "p \<in> set all" and rest: "set rest \<subseteq> set all" by simp_all
  from paths p obtain out where out: "get_output_path env files1 p = Inr out"
      and out_no_input: "out \<notin> set all"
    by blast
  show ?case
  proof (cases "is_already_converted env f p")
    case (Inl e)
    with Cons.prems(1) show ?thesis by simp
  next
    case (Inr b)
    show ?thesis
    proof (cases b)
      case True
      with Inr Cons.prems(1)
      have run: "convert_files env rest (r\<lparr>skipped := skipped r + 1\<rparr>) f = Inr (r', f')"
        by simp
      have "failed r' = failed (r\<lparr>skipped := skipped r + 1\<rparr>)"
        using Cons.prems(2) by simp
      from Cons.IH [OF run this rest Cons.prems(4)]
      have ih: "\<forall>p\<in>set all. f' p = files0 p"
        "\<forall>p\<in>set all. \<forall>pdf_path t. get_output_path env files1 p = Inr pdf_path \<longrightarrow>
            f pdf_path = Some t \<longrightarrow> (\<forall>u. files0 p = Some u \<longrightarrow> u \<le> t) \<longrightarrow>
            (\<exists>t'. f' pdf_path = Some t' \<and> (\<forall>u. files0 p = Some u \<longrightarrow> u \<le> t'))"
        "\<forall>p\<in>set rest. \<forall>pdf_path. get_output_path env files1 p = Inr pdf_path \<longrightarrow>
            (\<exists>t'. f' pdf_path = Some t' \<and> (\<forall>u. files0 p = Some u \<longrightarrow> u \<le> t'))"
        by blast+
      from True Inr obtain pdf_path t u where now:
        "get_output_path env f p = Inr pdf_path" "f pdf_path = Some t" "f p = Some u" "u \<le> t"
        by (auto simp: is_already_converted_True)
      from now(1) out have "pdf_path = out" by (rule get_output_path_same)
      with now Cons.prems(4) p have "f out = Some t" "\<forall>u. files0 p = Some u \<longrightarrow> u \<le> t"
        by auto
      with ih(2) p out
      have here: "\<exists>t'. f' out = Some t' \<and> (\<forall>u. files0 p = Some u \<longrightarrow> u \<le> t')"
        by blast
      have "\<forall>q\<in>set (p # rest). \<forall>pdf_path. get_output_path env files1 q = Inr pdf_path \<longrightarrow>
            (\<exists>t'. f' pdf_path = Some t' \<and> (\<forall>u. files0 q = Some u \<longrightarrow> u \<le> t'))"
        using here out ih(3) by auto
      with ih(1,2) show ?thesis by blast
    next
      case False
      obtain ok f1 where conv: "convert_epub_to_pdf env p f = (ok, f1)"
        by (cases "convert_epub_to_pdf env p f")
      show ?thesis
      proof (cases ok)
        case no: False
        with False Inr conv Cons.prems(1)
        have "convert_files env rest (r\<lparr>failed := failed r + 1\<rparr>) f1 = Inr (r', f')"
          by simp
        from convert_files_failed_mono [OF this] Cons.prems(2) show ?thesis by simp
      next
        case yes: True
        with False Inr conv Cons.prems(1)
        have run: "convert_files env rest (r\<lparr>success := success r + 1\<rparr>) f1 = Inr (r', f')"
          by simp
        have fl: "failed r' = failed (r\<lparr>success := success r + 1\<rparr>)"
          using Cons.prems(2) by simp
        from False Inr have nc: "is_already_converted env f p = Inr False" by simp
        from yes conv have cv: "convert_epub_to_pdf env p f = (True, f1)" by simp
        from convert_epub_to_pdf_writes [OF frame nc cv]
        obtain pdf_path html base where w:
          "get_output_path env f p = Inr pdf_path"
          "fst (write_pdf env html base pdf_path f) = None"
          "f1 = snd (write_pdf env html base pdf_path f)"
          "\<forall>q. q \<noteq> pdf_path \<longrightarrow> f1 q = f q"
          by blast
        from w(1) out have po: "pdf_path = out" by (rule get_output_path_same)
        from stamp w(2,3) po obtain t where t: "f1 out = Some t"
          "\<forall>q\<in>set all. \<forall>u. files0 q = Some u \<longrightarrow> u \<le> t"
          by blast
        have inputs1: "\<forall>q\<in>set all. f1 q = files0 q"
          using w(4) po out_no_input Cons.prems(4) by metis
        from Cons.IH [OF run fl rest inputs1]
        have ih: "\<forall>p\<in>set all. f' p = files0 p"
          "\<forall>p\<in>set all. \<forall>pdf_path t. get_output_path env files1 p = Inr pdf_path \<longrightarrow>
              f1 pdf_path = Some t \<longrightarrow> (\<forall>u. files0 p = Some u \<longrightarrow> u \<le> t) \<longrightarrow>
              (\<exists>t'. f' pdf_path = Some t' \<and> (\<forall>u. files0 p = Some u \<longrightarrow> u \<le> t'))"
          "\<forall>p\<in>set rest. \<forall>pdf_path. get_output_path env files1 p = Inr pdf_path \<longrightarrow>
              (\<exists>t'. f' pdf_path = Some t' \<and> (\<forall>u. files0 p = Some u \<longrightarrow> u \<le> t'))"
          by blast+
        have keep: "\<exists>t'. f' o' = Some t' \<and> (\<forall>u. files0 q = Some u \<longrightarrow> u \<le> t')"
          if q: "q \<in> set all" and o': "get_output_path env files1 q = Inr o'"
            and was: "f o' = Some s" "\<forall>u. files0 q = Some u \<longrightarrow> u \<le> s" for q o' s
        proof -
          have "\<exists>s'. f1 o' = Some s' \<and> (\<forall>u. files0 q = Some u \<longrightarrow> u \<le> s')"
          proof (cases "o' = out")
            case True
            with t q show ?thesis by blast
          next
            case False
            with w(4) po was show ?thesis by metis
          qed
          with ih(2) q o' show ?thesis by blast
        qed
        have here: "\<exists>t'. f' out = Some t' \<and> (\<forall>u. files0 p = Some u \<longrightarrow> u \<le> t')"
          using ih(2) p out t by blast
        have all_ps: "\<forall>q\<in>set (p # rest). \<forall>pdf_path.
            get_output_path env files1 q = Inr pdf_path \<longrightarrow>
            (\<exists>t'. f' pdf_path = Some t' \<and> (\<forall>u. files0 q = Some u \<longrightarrow> u \<le> t'))"
          using here out ih(3) by auto
        from ih(1) keep all_ps show ?thesis by blast
      qed
    qed
  qed
qed

lemma second_run_all_skipped:
  assumes exist: "\<forall>p\<in>set epub_files. files0 p \<noteq> None"
    and paths: "\<forall>p\<in>set epub_files. \<exists>pdf_path.
        get_output_path env files1 p = Inr pdf_path \<and> pdf_path \<notin> set epub_files"
    and frame: "\<forall>html base target f q.
        q \<noteq> target \<longrightarrow> snd (write_pdf env html base target f) q = f q"
    and stamp: "\<forall>html base target f.
        fst (write_pdf env html base target f) = None \<longrightarrow>
        (\<exists>t. snd (write_pdf env html base target f) target = Some t \<and>
             (\<forall>p\<in>set epub_files. \<forall>u. files0 p = Some u \<longrightarrow> u \<le> t))"
    and first: "convert_all env epub_files files0 = Inr (r1, files1)" "failed r1 = 0"
  shows "convert_all env epub_files files1 =
     Inr (\<lparr>total = length epub_files, success = 0, failed = 0, skipped = length epub_files\<rparr>,
          files1)"
proof (cases "epub_files = []")
  case True
  with first show ?thesis by (simp add: convert_all_def)
next
  case False
  let ?r0 = "\<lparr>total = length epub_files, success = 0, failed = 0, skipped = 0\<rparr>"
  from False first(1) have run: "convert_files env epub_files ?r0 files0 = Inr (r1, files1)"
    by (simp add: convert_all_def)
  have "failed r1 = failed ?r0" using first(2) by simp
  from convert_files_up_to_date [OF paths frame stamp exist run this]
  have inputs: "\<forall>p\<in>set epub_files. files1 p = files0 p"
    and outputs: "\<forall>p\<in>set epub_files. \<forall>pdf_path.
        get_output_path env files1 p = Inr pdf_path \<longrightarrow>
        (\<exists>t'. files1 pdf_path = Some t' \<and> (\<forall>u. files0 p = Some u \<longrightarrow> u \<le> t'))"
    by simp_all
  have "\<forall>p\<in>set epub_files. is_already_converted env files1 p = Inr True"
  proof
    fix p assume p: "p \<in> set epub_files"
    from paths p obtain out where out: "get_output_path env files1 p = Inr out" by blast
    from exist p obtain u where u: "files0 p = Some u" by auto
    from outputs p out u obtain t' where "files1 out = Some t'" "u \<le> t'" by blast
    moreover from inputs p u have "files1 p = Some u" by simp
    ultimately show "is_already_converted env files1 p = Inr True"
      using out by (auto simp: is_already_converted_True)
  qed
  from all_up_to_date_all_skipped [OF this, of ?r0] False
  show ?thesis by (simp add: convert_all_def)
qed

lemma demo_broken_fails:
  "files ''output_book'' = None \<Longrightarrow> files ''output_book/broken.pdf'' = None \<Longrightarrow>
   is_already_converted demo_env files ''source_book/broken.epub'' = Inr False \<and>
   convert_epub_to_pdf demo_env ''source_book/broken.epub'' files = (False, files)"
proof -
  assume a: "files ''output_book'' = None" "files ''output_book/broken.pdf'' = None"
  have "read_epub demo_env ''source_book/broken.epub'' = Inl (Exception ''BadZipFile'')"
    by (simp add: demo_env_def)
  with a show ?thesis
    by (simp add: convert_epub_to_pdf_def is_already_converted_def demo_output_path
        extract_epub_content_def)
qed

text \<open>
  C8, as stated, at a file that is no package: the run reports it failed, writes no
  output and gives back the file system as it was. A second run, the input not modified,
  is this run again: it reports the file failed, not skipped.
\<close>

theorem second_run_not_skipped_counterexample:
  "convert_all demo_env [''source_book/broken.epub''] demo_files =
     Inr (\<lparr>total = 1, success = 0, failed = 1, skipped = 0\<rparr>, demo_files)"
proof -
  have "is_already_converted demo_env demo_files ''source_book/broken.epub'' = Inr False"
    "convert_epub_to_pdf demo_env ''source_book/broken.epub'' demo_files = (False, demo_files)"
    using demo_broken_fails [of demo_files] by (simp_all add: demo_files_def)
  then show ?thesis by (simp add: convert_all_def)
qed

text \<open>
  C8, amended. In every run, a file that the loop reaches with counters \<open>r\<close> in a file
  system \<open>files\<close> where it exists, and whose output path can be made, is counted as
  skipped exactly when the output file exists and its modification time is at least
  that of the input; a file counted as skipped adds to no other counter and leaves the
  file system as it is. And a second run over what a first run left, the input not
  modified, counts every file as skipped and leaves the file system as it is, when the
  first run counted no file as failed, every input file exists, the output paths can be
  made in what the first run left and name no input file, and the renderer changes its
  target only and leaves it with a modification time that is not before that of any
  input file.
\<close>

theorem skipped_iff_output_not_older:
  "(\<forall>pre epub_path post r files pdf_path epub_mtime.
      convert_files env pre
        \<lparr>total = length (pre @ epub_path # post), success = 0, failed = 0, skipped = 0\<rparr> files0
        = Inr (r, files) \<and>
      get_output_path env files epub_path = Inr pdf_path \<and>
      files epub_path = Some epub_mtime
      \<longrightarrow> (\<exists>r' files'.
            convert_files env [epub_path] r files = Inr (r', files') \<and>
            convert_all env (pre @ epub_path # post) files0 = convert_files env post r' files' \<and>
            (skipped r' = skipped r + 1 \<longleftrightarrow>
               (\<exists>pdf_mtime. files pdf_path = Some pdf_mtime \<and> pdf_mtime \<ge> epub_mtime)) \<and>
            (skipped r' = skipped r + 1 \<longrightarrow>
               files' = files \<and> r' = r\<lparr>skipped := skipped r + 1\<rparr>) \<and>
            (skipped r' \<noteq> skipped r + 1 \<longrightarrow> skipped r' = skipped r)))
   \<and> ((\<forall>p\<in>set epub_files. files0 p \<noteq> None) \<and>
      (\<forall>p\<in>set epub_files. \<exists>pdf_path.
         get_output_path env files1 p = Inr pdf_path \<and> pdf_path \<notin> set epub_files) \<and>
      (\<forall>html base target f q.
         q \<noteq> target \<longrightarrow> snd (write_pdf env html base target f) q = f q) \<and>
      (\<forall>html base target f.
         fst (write_pdf env html base target f) = None \<longrightarrow>
         (\<exists>t. snd (write_pdf env html base target f) target = Some t \<and>
              (\<forall>p\<in>set epub_files. \<forall>u. files0 p = Some u \<longrightarrow> u \<le> t))) \<and>
      convert_all env epub_files files0 = Inr (r1, files1) \<and> failed r1 = 0
      \<longrightarrow> convert_all env epub_files files1 =
            Inr (\<lparr>total = length epub_files, success = 0, failed = 0,
                  skipped = length epub_files\<rparr>, files1))"
proof (intro conjI allI impI)
  fix pre post :: "string list" and epub_path pdf_path :: string and r :: results
    and files :: fs and epub_mtime :: real
  let ?r0 = "\<lparr>total = length (pre @ epub_path # post), success = 0, failed = 0, skipped = 0\<rparr>"
  let ?newer = "\<exists>pdf_mtime. files pdf_path = Some pdf_mtime \<and> pdf_mtime \<ge> epub_mtime"
  assume a: "convert_files env pre ?r0 files0 = Inr (r, files) \<and>
      get_output_path env files epub_path = Inr pdf_path \<and>
      files epub_path = Some epub_mtime"
  then have conv: "is_already_converted env files epub_path = Inr ?newer"
    by (simp add: is_already_converted_at)
  have whole: "convert_all env (pre @ epub_path # post) files0 =
      (case convert_files env [epub_path] r files of
         Inl e \<Rightarrow> Inl e
       | Inr (r', files') \<Rightarrow> convert_files env post r' files')"
  proof -
    have "convert_all env (pre @ epub_path # post) files0 =
        convert_files env (pre @ [epub_path] @ post) ?r0 files0"
      by (simp add: convert_all_def)
    also have "\<dots> = (case convert_files env pre ?r0 files0 of
         Inl e \<Rightarrow> Inl e
       | Inr (r, files) \<Rightarrow> convert_files env ([epub_path] @ post) r files)"
      by (rule convert_files_append)
    also have "\<dots> = convert_files env ([epub_path] @ post) r files"
      using a by simp
    also have "\<dots> = (case convert_files env [epub_path] r files of
         Inl e \<Rightarrow> Inl e
       | Inr (r', files') \<Rightarrow> convert_files env post r' files')"
      by (rule convert_files_append)
    finally show ?thesis .
  qed
  show "\<exists>r' files'.
      convert_files env [epub_path] r files = Inr (r', files') \<and>
      convert_all env (pre @ epub_path # post) files0 = convert_files env post r' files' \<and>
      (skipped r' = skipped r + 1 \<longleftrightarrow> ?newer) \<and>
      (skipped r' = skipped r + 1 \<longrightarrow> files' = files \<and> r' = r\<lparr>skipped := skipped r + 1\<rparr>) \<and>
      (skipped r' \<noteq> skipped r + 1 \<longrightarrow> skipped r' = skipped r)"
  proof (cases ?newer)
    case True
    with conv have "convert_files env [epub_path] r files =
        Inr (r\<lparr>skipped := skipped r + 1\<rparr>, files)"
      by (simp only: convert_files_single) simp
    with whole True show ?thesis by simp
  next
    case False
    obtain ok f1 where c: "convert_epub_to_pdf env epub_path files = (ok, f1)"
      by (cases "convert_epub_to_pdf env epub_path files")
    with conv False have "convert_files env [epub_path] r files =
        Inr (if ok then r\<lparr>success := success r + 1\<rparr> else r\<lparr>failed := failed r + 1\<rparr>, f1)"
      by (simp only: convert_files_single) simp
    with whole False show ?thesis by (cases ok) simp_all
  qed
next
  assume a: "(\<forall>p\<in>set epub_files. files0 p \<noteq> None) \<and>
      (\<forall>p\<in>set epub_files. \<exists>pdf_path.
         get_output_path env files1 p = Inr pdf_path \<and> pdf_path \<notin> set epub_files) \<and>
      (\<forall>html base target f q.
         q \<noteq> target \<longrightarrow> snd (write_pdf env html base target f) q = f q) \<and>
      (\<forall>html base target f.
         fst (write_pdf env html base target f) = None \<longrightarrow>
         (\<exists>t. snd (write_pdf env html base target f) target = Some t \<and>
              (\<forall>p\<in>set epub_files. \<forall>u. files0 p = Some u \<longrightarrow> u \<le> t))) \<and>
      convert_all env epub_files files0 = Inr (r1, files1) \<and> failed r1 = 0"
  show "convert_all env epub_files files1 =
      Inr (\<lparr>total = length epub_files, success = 0, failed = 0,
            skipped = length epub_files\<rparr>, files1)"
    by (rule second_run_all_skipped [where ?files0.0 = files0 and ?r1.0 = r1]) (use a in blast)+
qed

lemma demo_convert_new:
  "convert_epub_to_pdf demo_env ''source_book/new.epub'' demo_files =
     (True, demo_files(''output_book/new.pdf'' \<mapsto> 20))"
proof -
  obtain html where "extract_epub_content (Inr demo_book) ''source_book/new.epub'' = Some html"
      and "html \<noteq> []"
    using extract_epub_content_nonempty [of demo_book "''source_book/new.epub''"] by blast
  moreover have "read_epub demo_env ''source_book/new.epub'' = Inr demo_book"
    "write_pdf demo_env = (\<lambda>html base target files. (None, files(target \<mapsto> 20)))"
    by (simp_all add: demo_env_def)
  ultimately show ?thesis
    by (simp add: convert_epub_to_pdf_def demo_not_converted demo_paths)
qed

lemma demo_old_up_to_date:
  "files ''output_book'' = None \<Longrightarrow> files ''source_book/old.epub'' = Some 5 \<Longrightarrow>
   files ''output_book/old.pdf'' = Some 7 \<Longrightarrow>
   is_already_converted demo_env files ''source_book/old.epub'' = Inr True"
  by (simp add: is_already_converted_def demo_output_path)

lemma demo_first_run:
  "convert_all demo_env [''source_book/new.epub'', ''source_book/old.epub''] demo_files =
     Inr (\<lparr>total = 2, success = 1, failed = 0, skipped = 1\<rparr>,
          demo_files(''output_book/new.pdf'' \<mapsto> 20))"
proof -
  have "is_already_converted demo_env (demo_files(''output_book/new.pdf'' \<mapsto> 20))
      ''source_book/old.epub'' = Inr True"
    by (rule demo_old_up_to_date) (simp_all add: demo_files_def)
  then show ?thesis
    by (simp add: convert_all_def demo_not_converted demo_convert_new)
qed

text \<open>
  A first run over two files converts the new book, stamping its output with time 20,
  past the time 10 of the input, and skips the old one; a second run over the file system
  it left counts both as skipped and leaves the file system as it is. And in the run over
  three files, the loop reaches the old book after the new book was converted and the
  broken file failed, and counts it as skipped.
\<close>

theorem skipped_iff_output_not_older_witness:
  "convert_all demo_env [''source_book/new.epub'', ''source_book/old.epub''] demo_files =
     Inr (\<lparr>total = 2, success = 1, failed = 0, skipped = 1\<rparr>,
          demo_files(''output_book/new.pdf'' \<mapsto> 20))
   \<and> convert_all demo_env [''source_book/new.epub'', ''source_book/old.epub'']
        (demo_files(''output_book/new.pdf'' \<mapsto> 20)) =
     Inr (\<lparr>total = 2, success = 0, failed = 0, skipped = 2\<rparr>,
          demo_files(''output_book/new.pdf'' \<mapsto> 20))
   \<and> convert_all demo_env
        [''source_book/new.epub'', ''source_book/broken.epub'', ''source_book/old.epub'']
        demo_files =
     Inr (\<lparr>total = 3, success = 1, failed = 1, skipped = 1\<rparr>,
          demo_files(''output_book/new.pdf'' \<mapsto> 20))"
proof -
  let ?new = "''source_book/new.epub''" and ?old = "''source_book/old.epub''"
  let ?broken = "''source_book/broken.epub''"
  let ?files1 = "demo_files(''output_book/new.pdf'' \<mapsto> 20)"
  let ?r1 = "\<lparr>total = 2, success = 1, failed = 0, skipped = 1\<rparr>"
  note inst = skipped_iff_output_not_older [of demo_env demo_files "[?new, ?old]" ?files1 ?r1]
  have no_dir: "?files1 ''output_book'' = None" by (simp add: demo_files_def)
  have exist: "\<forall>p\<in>set [?new, ?old]. demo_files p \<noteq> None"
    by (simp add: demo_files_def)
  have paths: "\<forall>p\<in>set [?new, ?old]. \<exists>pdf_path.
      get_output_path demo_env ?files1 p = Inr pdf_path \<and> pdf_path \<notin> set [?new, ?old]"
    using demo_output_path [of ?files1] no_dir by simp
  have frame: "\<forall>html base target f q.
      q \<noteq> target \<longrightarrow> snd (write_pdf demo_env html base target f) q = f q"
    by (simp add: demo_env_def)
  have stamp: "\<forall>html base target f.
      fst (write_pdf demo_env html base target f) = None \<longrightarrow>
      (\<exists>t. snd (write_pdf demo_env html base target f) target = Some t \<and>
           (\<forall>p\<in>set [?new, ?old]. \<forall>u. demo_files p = Some u \<longrightarrow> u \<le> t))"
    by (simp add: demo_env_def demo_files_def)
  have failed: "failed ?r1 = 0" by simp
  from inst exist paths frame stamp demo_first_run failed
  have second: "convert_all demo_env [?new, ?old] ?files1 =
      Inr (\<lparr>total = length [?new, ?old], success = 0, failed = 0,
            skipped = length [?new, ?old]\<rparr>, ?files1)"
    by blast
  let ?r = "\<lparr>total = 3, success = 1, failed = 1, skipped = 0\<rparr>"
  have broken: "is_already_converted demo_env ?files1 ?broken = Inr False"
    "convert_epub_to_pdf demo_env ?broken ?files1 = (False, ?files1)"
    using demo_broken_fails [of ?files1] by (simp_all add: demo_files_def)
  have reach: "convert_files demo_env [?new, ?broken]
      \<lparr>total = length ([?new, ?broken] @ ?old # []), success = 0, failed = 0, skipped = 0\<rparr>
      demo_files = Inr (?r, ?files1)"
    by (simp add: demo_not_converted demo_convert_new broken)
  have out: "get_output_path demo_env ?files1 ?old = Inr ''output_book/old.pdf''"
    using demo_output_path [of ?files1] no_dir by simp
  have input: "?files1 ?old = Some 5" by (simp add: demo_files_def)
  from inst reach out input
  obtain r' files' where step:
    "convert_all demo_env ([?new, ?broken] @ ?old # []) demo_files
       = convert_files demo_env [] r' files'"
    "skipped r' = skipped ?r + 1 \<longleftrightarrow>
       (\<exists>pdf_mtime. ?files1 ''output_book/old.pdf'' = Some pdf_mtime \<and> pdf_mtime \<ge> 5)"
    "skipped r' = skipped ?r + 1 \<longrightarrow> files' = ?files1 \<and> r' = ?r\<lparr>skipped := skipped ?r + 1\<rparr>"
    by blast
  have "?files1 ''output_book/old.pdf'' = Some 7" by (simp add: demo_files_def)
  with step(2) have "skipped r' = skipped ?r + 1" by simp
  with step(1,3) have third: "convert_all demo_env [?new, ?broken, ?old] demo_files =
      Inr (\<lparr>total = 3, success = 1, failed = 1, skipped = 1\<rparr>, ?files1)"
    by simp
  from demo_first_run second third show ?thesis by simp
qed

text \<open>
  The renderer of this run stamps its target with time 3, before the time 10 of the
  input: the second run converts the book again.
\<close>

lemma early_stamp_converted_again:
  "convert_all (demo_env\<lparr>write_pdf := \<lambda>html base target files. (None, files(target \<mapsto> 3))\<rparr>)
     [''source_book/new.epub''] (demo_files(''output_book/new.pdf'' \<mapsto> 3)) =
   Inr (\<lparr>total = 1, success = 1, failed = 0, skipped = 0\<rparr>,
        demo_files(''output_book/new.pdf'' \<mapsto> 3))"
proof -
  let ?env = "demo_env\<lparr>write_pdf := \<lambda>html base target files. (None, files(target \<mapsto> 3))\<rparr>"
  let ?files = "demo_files(''output_book/new.pdf'' \<mapsto> 3)"
  have out: "get_output_path ?env ?files ''source_book/new.epub'' = Inr ''output_book/new.pdf''"
    by (simp add: get_output_path_def demo_env_def path_stem_def path_parent_def
        last_segment_def Let_def demo_files_def)
  then have no: "is_already_converted ?env ?files ''source_book/new.epub'' = Inr False"
    by (simp add: is_already_converted_def) (simp add: demo_files_def)
  obtain html where "extract_epub_content (Inr demo_book) ''source_book/new.epub'' = Some html"
      and "html \<noteq> []"
    using extract_epub_content_nonempty [of demo_book "''source_book/new.epub''"] by blast
  moreover have "read_epub ?env ''source_book/new.epub'' = Inr demo_book"
    by (simp add: demo_env_def)
  ultimately have "convert_epub_to_pdf ?env ''source_book/new.epub'' ?files = (True, ?files)"
    by (simp add: convert_epub_to_pdf_def no out)
  with no show ?thesis by (simp add: convert_all_def)
qed

lemma convert_files_sum:
  "convert_files env epub_files results files = Inr (r, files') \<Longrightarrow>
   success r + failed r + skipped r =
     success results + failed results + skipped results + length epub_files
   \<and> total r = total results"
proof (induction epub_files arbitrary: results files)
  case Nil
  then show ?case by simp
next
  case (Cons p rest)
  show ?case
  proof (cases "is_already_converted env files p")
    case (Inl e)
    with Cons.prems show ?thesis by simp
  next
    case (Inr b)
    show ?thesis
    proof (cases b)
      case True
      with Inr Cons.prems
      have "convert_files env rest (results\<lparr>skipped := skipped results + 1\<rparr>) files
              = Inr (r, files')"
        by simp
      from Cons.IH [OF this] show ?thesis by simp
    next
      case False
      obtain ok files1 where conv: "convert_epub_to_pdf env p files = (ok, files1)"
        by (cases "convert_epub_to_pdf env p files")
      show ?thesis
      proof (cases ok)
        case True
        with False Inr conv Cons.prems
        have "convert_files env rest (results\<lparr>success := success results + 1\<rparr>) files1
                = Inr (r, files')"
          by simp
        from Cons.IH [OF this] show ?thesis by simp
      next
        case no: False
        with False Inr conv Cons.prems
        have "convert_files env rest (results\<lparr>failed := failed results + 1\<rparr>) files1
                = Inr (r, files')"
          by simp
        from Cons.IH [OF this] show ?thesis by simp
      qed
    qed
  qed
qed

text \<open>
  C10: the counters of a summary that \<^verbatim>\<open>convert_all\<close> returns add up to the total, which
  is the number of input files: every file adds one to exactly one counter.
\<close>

theorem summary_counters_add_up:
  "\<forall>r files'. convert_all env epub_files files = Inr (r, files') \<longrightarrow>
      success r + failed r + skipped r = total r \<and> total r = length epub_files"
proof (intro allI impI)
  fix r files'
  assume run: "convert_all env epub_files files = Inr (r, files')"
  show "success r + failed r + skipped r = total r \<and> total r = length epub_files"
  proof (cases "epub_files = []")
    case True
    with run show ?thesis by (auto simp: convert_all_def)
  next
    case False
    with run have "convert_files env epub_files
        \<lparr>total = length epub_files, success = 0, failed = 0, skipped = 0\<rparr> files = Inr (r, files')"
      by (simp add: convert_all_def)
    from convert_files_sum [OF this] show ?thesis by simp
  qed
qed

text \<open>
  A run over three files: the new book is converted, the broken file fails, and the old
  book, whose output is newer, is skipped.
\<close>

lemma demo_run:
  "convert_all demo_env
     [''source_book/new.epub'', ''source_book/broken.epub'', ''source_book/old.epub'']
     demo_files =
   Inr (\<lparr>total = 3, success = 1, failed = 1, skipped = 1\<rparr>,
        demo_files(''output_book/new.pdf'' \<mapsto> 20))"
proof -
  let ?files1 = "demo_files(''output_book/new.pdf'' \<mapsto> 20)"
  have broken: "is_already_converted demo_env ?files1 ''source_book/broken.epub'' = Inr False"
    "convert_epub_to_pdf demo_env ''source_book/broken.epub'' ?files1 = (False, ?files1)"
    using demo_broken_fails [of ?files1] by (simp_all add: demo_files_def)
  have old: "is_already_converted demo_env ?files1 ''source_book/old.epub'' = Inr True"
    by (rule demo_old_up_to_date) (simp_all add: demo_files_def)
  show ?thesis
    by (simp add: convert_all_def demo_not_converted demo_convert_new broken old)
qed

theorem summary_counters_add_up_witness:
  "\<exists>r files'. convert_all demo_env
       [''source_book/new.epub'', ''source_book/broken.epub'', ''source_book/old.epub'']
       demo_files = Inr (r, files')
     \<and> success r + failed r + skipped r = total r \<and> total r = 3"
  using demo_run
    summary_counters_add_up [of demo_env "[''source_book/new.epub'', ''source_book/broken.epub'',
      ''source_book/old.epub'']" demo_files]
  by fastforce

text \<open>
  The run returns a summary when every input file exists, no call of \<^verbatim>\<open>get_output_path\<close>
  raises and the renderer removes no file: then \<^verbatim>\<open>stat()\<close> cannot raise either. A call of
  \<^verbatim>\<open>get_output_path\<close> that raises ends the run with no summary.
\<close>

lemma convert_epub_to_pdf_keeps:
  assumes keeps: "\<forall>html base target f p.
      f p \<noteq> None \<longrightarrow> snd (write_pdf env html base target f) p \<noteq> None"
    and "files q \<noteq> None"
  shows "snd (convert_epub_to_pdf env p files) q \<noteq> None"
proof -
  have w: "\<And>html base target. snd (write_pdf env html base target files) q \<noteq> None"
    using keeps assms(2) by blast
  show ?thesis
  proof (cases "is_already_converted env files p")
    case (Inl e)
    then show ?thesis using assms(2) by (simp add: convert_epub_to_pdf_def)
  next
    case (Inr b)
    show ?thesis
    proof (cases b)
      case True
      with Inr show ?thesis using assms(2) by (simp add: convert_epub_to_pdf_def)
    next
      case False
      show ?thesis
      proof (cases "extract_epub_content (read_epub env p) p")
        case None
        with False Inr show ?thesis using assms(2) by (simp add: convert_epub_to_pdf_def)
      next
        case (Some html)
        show ?thesis
        proof (cases "get_output_path env files p")
          case (Inl e)
          with False Inr Some show ?thesis using assms(2)
            by (simp add: convert_epub_to_pdf_def)
        next
          case out: (Inr pdf_path)
          obtain e files1 where wr:
            "write_pdf env html (path_parent p) pdf_path files = (e, files1)"
            by (cases "write_pdf env html (path_parent p) pdf_path files")
          with w [of html "path_parent p" pdf_path] have "files1 q \<noteq> None"
            by simp
          with False Inr Some wr out show ?thesis using assms(2)
            by (cases e) (simp_all add: convert_epub_to_pdf_def)
        qed
      qed
    qed
  qed
qed

lemma convert_all_returns:
  assumes keeps: "\<forall>html base target f p.
      f p \<noteq> None \<longrightarrow> snd (write_pdf env html base target f) p \<noteq> None"
    and paths: "\<forall>p\<in>set all. \<forall>f. \<exists>pdf_path. get_output_path env f p = Inr pdf_path"
  shows "set epub_files \<subseteq> set all \<Longrightarrow> \<forall>p\<in>set all. files p \<noteq> None \<Longrightarrow>
         \<exists>r files'. convert_files env epub_files results files = Inr (r, files')"
proof (induction epub_files arbitrary: results files)
  case Nil
  then show ?case by simp
next
  case (Cons p rest)
  from Cons.prems obtain t where t: "files p = Some t" by auto
  from paths Cons.prems(1) obtain pdf_path where "get_output_path env files p = Inr pdf_path"
    by (metis list.set_intros(1) subsetD)
  with t obtain b where b: "is_already_converted env files p = Inr b"
    by (cases "files pdf_path") (auto simp: is_already_converted_def)
  show ?case
  proof (cases b)
    case True
    with b Cons show ?thesis by simp
  next
    case False
    obtain ok files1 where conv: "convert_epub_to_pdf env p files = (ok, files1)"
      by (cases "convert_epub_to_pdf env p files")
    have "\<forall>q\<in>set all. files1 q \<noteq> None"
    proof
      fix q assume "q \<in> set all"
      with Cons.prems have "files q \<noteq> None" by simp
      then have "snd (convert_epub_to_pdf env p files) q \<noteq> None"
        using keeps by (rule convert_epub_to_pdf_keeps [rotated])
      with conv show "files1 q \<noteq> None" by simp
    qed
    moreover from Cons.prems(1) have "set rest \<subseteq> set all" by simp
    ultimately show ?thesis
      using Cons.IH [of files1] False b conv by (cases ok) auto
  qed
qed

lemma output_path_raises_no_summary:
  "get_output_path env files p = Inl e \<Longrightarrow> convert_all env (p # rest) files = Inl e"
  by (simp add: convert_all_def is_already_converted_def)
subsection \<open>ReferenceRewriter\<close>

text \<open>
  C9: with an empty ImageMap the rewriter returns every fragment as it is, also a
  fragment with image tags: no reference becomes the placeholder.
\<close>

theorem empty_map_is_identity: "replace_image_references content [] = content"
  by (simp add: replace_image_references_def)

subsection \<open>ImageCollector: the bounds of the ImageMap\<close>

lemma set_update_subset: "set (AList.update k v al) \<subseteq> insert (k, v) (set al)"
  by (induction al) auto

lemma length_update_le: "length (AList.update k v al) \<le> Suc (length al)"
  by (induction al) auto

lemma update_fresh: "k \<notin> fst ` set al \<Longrightarrow> AList.update k v al = al @ [(k, v)]"
  by (induction al) auto

text \<open>The two registrations of one accepted image.\<close>

lemma register_set:
  "set (if b \<noteq> f then AList.update b v (AList.update f v al) else AList.update f v al)
     \<subseteq> {(f, v), (b, v)} \<union> set al"
  using set_update_subset [of f v al] set_update_subset [of b v "AList.update f v al"]
  by auto

lemma register_length:
  "length (if b \<noteq> f then AList.update b v (AList.update f v al) else AList.update f v al)
     \<le> length al + 2"
  using length_update_le [of f v al] length_update_le [of b v "AList.update f v al"]
  by auto

lemma register_values:
  "card (snd ` set (if b \<noteq> f then AList.update b v (AList.update f v al)
                    else AList.update f v al))
     \<le> card (snd ` set al) + 1"
proof -
  have "snd ` set (if b \<noteq> f then AList.update b v (AList.update f v al)
                    else AList.update f v al) \<subseteq> insert v (snd ` set al)"
    using register_set [of b f v al] by force
  then have "card (snd ` set (if b \<noteq> f then AList.update b v (AList.update f v al)
                    else AList.update f v al)) \<le> card (insert v (snd ` set al))"
    by (intro card_mono) auto
  also have "\<dots> \<le> card (snd ` set al) + 1"
    by (simp add: card_insert_le_m1 card_insert_if)
  finally show ?thesis .
qed

lemma register_distinct:
  "distinct (map fst al) \<Longrightarrow>
   distinct (map fst (if b \<noteq> f then AList.update b v (AList.update f v al)
                      else AList.update f v al))"
  by (simp add: distinct_update)

lemma accepted_entries_Cons: "accepted_entries rest \<subseteq> accepted_entries (item # rest)"
  by (auto simp: accepted_entries_def)

lemma accepted_entries_head:
  "get_type item = ITEM_IMAGE \<Longrightarrow> get_content item = Inr content \<Longrightarrow>
   length content \<le> max_size \<Longrightarrow>
   {(get_name item, data_url (get_name item) content),
    (last_segment CHR ''/'' (get_name item), data_url (get_name item) content)}
     \<subseteq> accepted_entries (item # rest)"
  by (auto simp: accepted_entries_def)

lemma collect_images_inv:
  "collect_images items images n = (images', n') \<Longrightarrow>
     n \<le> n' \<and> (n \<le> max_images \<longrightarrow> n' \<le> max_images) \<and>
     length images' \<le> length images + 2 * (n' - n) \<and>
     card (snd ` set images') \<le> card (snd ` set images) + (n' - n) \<and>
     set images' \<subseteq> set images \<union> accepted_entries items \<and>
     (distinct (map fst images) \<longrightarrow> distinct (map fst images'))"
proof (induction items arbitrary: images n)
  case Nil
  then show ?case by simp
next
  case (Cons item rest)
  note sub = accepted_entries_Cons [of rest item]
  show ?case
  proof (cases "get_type item = ITEM_IMAGE")
    case False
    with Cons.prems have "collect_images rest images n = (images', n')" by simp
    from Cons.IH [OF this] sub show ?thesis by blast
  next
    case image: True
    show ?thesis
    proof (cases "n \<ge> max_images")
      case True
      with image Cons.prems show ?thesis by simp
    next
      case room: False
      show ?thesis
      proof (cases "get_content item")
        case (Inl e)
        with image room Cons.prems have "collect_images rest images n = (images', n')" by simp
        from Cons.IH [OF this] sub show ?thesis by blast
      next
        case (Inr content)
        show ?thesis
        proof (cases "length content > max_size")
          case True
          with Inr image room Cons.prems have "collect_images rest images n = (images', n')"
            by simp
          from Cons.IH [OF this] sub show ?thesis by blast
        next
          case small: False
          define f where "f = get_name item"
          define b where "b = last_segment CHR ''/'' f"
          define v where "v = data_url f content"
          define images2 where "images2 =
            (if b \<noteq> f then AList.update b v (AList.update f v images)
             else AList.update f v images)"
          from small Inr image room Cons.prems
          have run: "collect_images rest images2 (n + 1) = (images', n')"
            by (simp add: Let_def images2_def f_def b_def v_def split: if_splits)
          note ih = Cons.IH [OF run]
          have l2: "length images2 \<le> length images + 2"
            unfolding images2_def by (rule register_length)
          have c2: "card (snd ` set images2) \<le> card (snd ` set images) + 1"
            unfolding images2_def by (rule register_values)
          have s2: "set images2 \<subseteq> {(f, v), (b, v)} \<union> set images"
            unfolding images2_def by (rule register_set)
          have d2: "distinct (map fst images) \<Longrightarrow> distinct (map fst images2)"
            unfolding images2_def by (rule register_distinct)
          have head: "{(f, v), (b, v)} \<subseteq> accepted_entries (item # rest)"
            using accepted_entries_head [of item content rest] image Inr small
            by (simp add: f_def b_def v_def)
          have "n \<le> n'" using ih by simp
          moreover have "n \<le> max_images \<longrightarrow> n' \<le> max_images" using ih room by simp
          moreover have "length images' \<le> length images + 2 * (n' - n)" using ih l2 by linarith
          moreover have "card (snd ` set images') \<le> card (snd ` set images) + (n' - n)"
            using ih c2 by linarith
          moreover have "set images' \<subseteq> set images \<union> accepted_entries (item # rest)"
            using ih s2 head sub by blast
          moreover have "distinct (map fst images) \<longrightarrow> distinct (map fst images')"
            using ih d2 by blast
          ultimately show ?thesis by blast
        qed
      qed
    qed
  qed
qed

lemma heavy_name_inj: "heavy_name i = heavy_name j \<longleftrightarrow> i = j"
proof
  assume "heavy_name i = heavy_name j"
  then have "length (heavy_name i) = length (heavy_name j)" by simp
  then show "i = j" by (simp add: heavy_name_def)
qed simp

lemma heavy_path_inj: "heavy_path i = heavy_path j \<longleftrightarrow> i = j"
  by (simp add: heavy_path_def heavy_name_inj)

lemma heavy_no_slash: "CHR ''/'' \<notin> set (heavy_name i)"
  by (simp add: heavy_name_def)

lemma heavy_base: "last_segment CHR ''/'' (heavy_path i) = heavy_name i"
  using last_segment_after [of "CHR ''/''" "heavy_name i" "''images''"] heavy_no_slash
  by (simp add: heavy_path_def)

lemma heavy_path_not_name: "heavy_path i \<noteq> heavy_name j"
proof
  assume "heavy_path i = heavy_name j"
  then have "CHR ''/'' \<in> set (heavy_name j)"
    unfolding heavy_path_def by (metis in_set_conv_decomp append_Cons append_Nil list.set_intros(1) UnCI set_append)
  with heavy_no_slash show False by blast
qed

lemma collect_heavy:
  "distinct js \<Longrightarrow>
   \<forall>j\<in>set js. heavy_path j \<notin> fst ` set images \<and> heavy_name j \<notin> fst ` set images \<Longrightarrow>
   n + length js \<le> max_images \<Longrightarrow>
   collect_images (map heavy_item js) images n =
     (images @ concat (map (\<lambda>j. [(heavy_path j, data_url (heavy_path j) []),
                                 (heavy_name j, data_url (heavy_path j) [])]) js),
      n + length js)"
proof (induction js arbitrary: images n)
  case Nil
  then show ?case by simp
next
  case (Cons j js)
  let ?f = "heavy_path j"
  let ?v = "data_url ?f []"
  let ?images2 = "images @ [(?f, ?v), (heavy_name j, ?v)]"
  have fresh_f: "?f \<notin> fst ` set images" and fresh_b: "heavy_name j \<notin> fst ` set images"
    using Cons.prems(2) by simp_all
  have up1: "AList.update ?f ?v images = images @ [(?f, ?v)]"
    using fresh_f by (rule update_fresh)
  have "heavy_name j \<notin> fst ` set (images @ [(?f, ?v)])"
    using fresh_b heavy_path_not_name [of j j] by auto
  then have up2: "AList.update (heavy_name j) ?v (images @ [(?f, ?v)]) = ?images2"
    by (simp add: update_fresh)
  have room: "\<not> n \<ge> max_images" using Cons.prems(3) by simp
  have ne: "heavy_name j \<noteq> heavy_path j"
    using heavy_path_not_name [of j j] by simp
  have step: "collect_images (map heavy_item (j # js)) images n =
      collect_images (map heavy_item js) ?images2 (n + 1)"
    using room ne
    by (simp add: heavy_item_def heavy_base up1 up2 Let_def max_size_def)
  have rest: "\<forall>i\<in>set js. heavy_path i \<notin> fst ` set ?images2 \<and>
      heavy_name i \<notin> fst ` set ?images2"
  proof
    fix i assume i: "i \<in> set js"
    with Cons.prems(1) have "i \<noteq> j" by auto
    with i Cons.prems(2) heavy_path_not_name [of i j] heavy_path_not_name [of j i]
    show "heavy_path i \<notin> fst ` set ?images2 \<and> heavy_name i \<notin> fst ` set ?images2"
      by (auto simp: heavy_name_inj heavy_path_inj)
  qed
  have "collect_images (map heavy_item js) ?images2 (n + 1) =
     (?images2 @ concat (map (\<lambda>j. [(heavy_path j, data_url (heavy_path j) []),
                                 (heavy_name j, data_url (heavy_path j) [])]) js),
      n + 1 + length js)"
    using Cons.prems by (intro Cons.IH rest) simp_all
  with step show ?case by simp
qed

lemma length_concat_pairs: "length (concat (map (\<lambda>j. [f j, g j]) js)) = 2 * length js"
  by (induction js) simp_all

text \<open>
  C2, as stated, at a package of 251 images in a directory: every image is registered
  under its path and under its basename, and the ImageMap has 502 keys.
\<close>

theorem image_map_larger_than_500_counterexample:
  "length (extract_images_from_epub image_heavy_book) = 502"
proof -
  have "collect_images (map heavy_item [0..<251]) [] 0 =
     ([] @ concat (map (\<lambda>j. [(heavy_path j, data_url (heavy_path j) []),
                                 (heavy_name j, data_url (heavy_path j) [])]) [0..<251]),
      0 + length [0..<251])"
    by (rule collect_heavy) (simp_all add: max_images_def)
  then show ?thesis
    by (simp add: extract_images_from_epub_def image_heavy_book_def length_concat_pairs)
qed

text \<open>
  C2, amended: the collector accepts at most 500 images, so the ImageMap holds at most
  500 different data references, under at most 1000 keys, which are distinct. Every entry
  is the data reference of an image item of the package whose content is at most 5 MiB
  long, under the path of the item or under its basename: an image over the limit is left
  out, and nothing stands in for it.
\<close>

theorem image_map_bounds:
  "length (extract_images_from_epub book) \<le> 1000 \<and>
   card (snd ` set (extract_images_from_epub book)) \<le> 500 \<and>
   snd (collect_images (get_items book) [] 0) \<le> 500 \<and>
   distinct (map fst (extract_images_from_epub book)) \<and>
   (\<forall>(k, v) \<in> set (extract_images_from_epub book).
      \<exists>item content. item \<in> set (get_items book) \<and> get_type item = ITEM_IMAGE \<and>
        get_content item = Inr content \<and> length content \<le> 5242880 \<and>
        v = data_url (get_name item) content \<and>
        (k = get_name item \<or> k = last_segment CHR ''/'' (get_name item)))"
proof -
  obtain images n where run: "collect_images (get_items book) [] 0 = (images, n)"
    by (cases "collect_images (get_items book) [] 0")
  note inv = collect_images_inv [OF run]
  have eq: "extract_images_from_epub book = images"
    by (simp add: extract_images_from_epub_def run)
  have n: "n \<le> 500" using inv by (simp add: max_images_def)
  have "length images \<le> 1000" using inv n by simp
  moreover have "card (snd ` set images) \<le> 500" using inv n by simp
  moreover have "distinct (map fst images)" using inv by simp
  moreover have "\<forall>(k, v) \<in> set images.
      \<exists>item content. item \<in> set (get_items book) \<and> get_type item = ITEM_IMAGE \<and>
        get_content item = Inr content \<and> length content \<le> 5242880 \<and>
        v = data_url (get_name item) content \<and>
        (k = get_name item \<or> k = last_segment CHR ''/'' (get_name item))"
  proof -
    have "set images \<subseteq> accepted_entries (get_items book)" using inv by simp
    then show ?thesis by (fastforce simp: accepted_entries_def max_size_def)
  qed
  ultimately show ?thesis using n by (simp add: eq run)
qed

text \<open>
  In the package of the example the image of three bytes is registered twice, and the
  image of 5242881 bytes is not in the ImageMap.
\<close>

theorem image_map_bounds_witness:
  "extract_images_from_epub demo_book =
     [(''images/a.png'', ''data:image/png;base64,YWJj''),
      (''a.png'', ''data:image/png;base64,YWJj'')]
   \<and> (\<exists>item content. item \<in> set (get_items demo_book) \<and> get_type item = ITEM_IMAGE \<and>
        get_content item = Inr content \<and> length content \<le> 5242880 \<and>
        ''data:image/png;base64,YWJj'' = data_url (get_name item) content \<and>
        (''a.png'' = get_name item \<or> ''a.png'' = last_segment CHR ''/'' (get_name item)))"
proof -
  have "(''a.png'', ''data:image/png;base64,YWJj'') \<in> set (extract_images_from_epub demo_book)"
    by (simp add: demo_images)
  with image_map_bounds [of demo_book]
  have "\<exists>item content. item \<in> set (get_items demo_book) \<and> get_type item = ITEM_IMAGE \<and>
        get_content item = Inr content \<and> length content \<le> 5242880 \<and>
        ''data:image/png;base64,YWJj'' = data_url (get_name item) content \<and>
        (''a.png'' = get_name item \<or> ''a.png'' = last_segment CHR ''/'' (get_name item))"
    by fast
  with demo_images show ?thesis by simp
qed

subsection \<open>ContentAssembler: the order of the documents\<close>

lemma spine_order_snoc:
  "spine_order (sp @ [(k, l)]) = AList.update k (length sp) (spine_order sp)"
  by (simp add: spine_order_def enumerate_append_eq)

lemma map_of_spine_order_snoc:
  "map_of (spine_order (sp @ [(k, l)])) = (map_of (spine_order sp))(k \<mapsto> length sp)"
  by (simp add: spine_order_snoc update_conv')

lemma spine_order_Nil: "spine_order [] = []"
  by (simp add: spine_order_def)

lemma spine_order_Some:
  "map_of (spine_order sp) k = Some i \<Longrightarrow> i < length sp \<and> fst (sp ! i) = k"
proof (induction sp arbitrary: i rule: rev_induct)
  case Nil
  then show ?case by (simp add: spine_order_Nil)
next
  case (snoc x sp)
  obtain k' l where x: "x = (k', l)" by (cases x)
  show ?case
  proof (cases "k = k'")
    case True
    with snoc.prems x show ?thesis by (auto simp: map_of_spine_order_snoc)
  next
    case False
    with snoc.prems x have "map_of (spine_order sp) k = Some i"
      by (simp add: map_of_spine_order_snoc)
    from snoc.IH [OF this] show ?thesis by (simp add: nth_append)
  qed
qed

lemma spine_order_None:
  "map_of (spine_order sp) k = None \<longleftrightarrow> k \<notin> fst ` set sp"
proof (induction sp rule: rev_induct)
  case Nil
  then show ?case by (simp add: spine_order_Nil)
next
  case (snoc x sp)
  obtain k' l where x: "x = (k', l)" by (cases x)
  with snoc show ?case by (auto simp: map_of_spine_order_snoc)
qed

lemma sort_rank_declared:
  "get_id d \<in> fst ` set sp \<Longrightarrow>
   sort_rank (spine_order sp) d < length sp \<and>
   fst (sp ! sort_rank (spine_order sp) d) = get_id d"
proof -
  assume "get_id d \<in> fst ` set sp"
  then obtain i where i: "map_of (spine_order sp) (get_id d) = Some i"
    using spine_order_None [of sp "get_id d"] by auto
  from spine_order_Some [OF i] i show ?thesis by (simp add: sort_rank_def)
qed

lemma sort_rank_absent:
  "get_id d \<notin> fst ` set sp \<Longrightarrow> sort_rank (spine_order sp) d = 999"
  using spine_order_None [of sp "get_id d"] by (simp add: sort_rank_def)

lemma sorted_two_blocks:
  "sorted (map f xs) \<Longrightarrow> \<forall>x\<in>set xs. (P x \<longrightarrow> f x < c) \<and> (\<not> P x \<longrightarrow> f x = c) \<Longrightarrow>
   xs = filter P xs @ filter (\<lambda>x. \<not> P x) xs"
proof (induction xs)
  case Nil
  then show ?case by simp
next
  case (Cons x xs)
  then have ih: "xs = filter P xs @ filter (\<lambda>x. \<not> P x) xs" by simp
  show ?case
  proof (cases "P x")
    case True
    with ih show ?thesis by simp
  next
    case False
    with Cons.prems have "f x = c" by simp
    with Cons.prems have "\<forall>y\<in>set xs. \<not> P y" by fastforce
    then have "filter P xs = []" by (simp add: filter_empty_conv)
    with False ih show ?thesis by simp
  qed
qed

text \<open>
  With a spine of at most 999 entries the order is the declared one: the documents are
  sorted by their rank, the rank of a document that the spine names is a position at
  which the spine names it, the documents that the spine does not name keep the order in
  which they were met, and they all follow the documents that the spine names.
\<close>

lemma declared_order_below_sentinel:
  assumes "spine book \<noteq> []" and "length (spine book) \<le> 999"
  shows "sorted (map (sort_rank (spine_order (spine book))) (ordered_documents book))"
    and "\<forall>d\<in>set (ordered_documents book). get_id d \<in> fst ` set (spine book) \<longrightarrow>
           fst (spine book ! sort_rank (spine_order (spine book)) d) = get_id d"
    and "filter (\<lambda>d. get_id d \<notin> fst ` set (spine book)) (ordered_documents book) =
         filter (\<lambda>d. get_id d \<notin> fst ` set (spine book))
           (filter (\<lambda>item. get_type item = ITEM_DOCUMENT) (get_items book))"
    and "ordered_documents book =
         filter (\<lambda>d. get_id d \<in> fst ` set (spine book)) (ordered_documents book) @
         filter (\<lambda>d. get_id d \<notin> fst ` set (spine book)) (ordered_documents book)"
proof -
  let ?rank = "sort_rank (spine_order (spine book))"
  let ?docs = "filter (\<lambda>item. get_type item = ITEM_DOCUMENT) (get_items book)"
  have od: "ordered_documents book = sort_key ?rank ?docs"
    using assms(1) by (simp add: ordered_documents_def sort_documents_def)
  show sorted: "sorted (map ?rank (ordered_documents book))"
    by (simp add: od)
  show "\<forall>d\<in>set (ordered_documents book). get_id d \<in> fst ` set (spine book) \<longrightarrow>
           fst (spine book ! ?rank d) = get_id d"
    using sort_rank_declared by blast
  have absent_iff: "get_id d \<notin> fst ` set (spine book) \<longleftrightarrow> ?rank d = 999" for d
    using sort_rank_declared [of d "spine book"] sort_rank_absent [of d "spine book"] assms(2)
    by fastforce
  show "filter (\<lambda>d. get_id d \<notin> fst ` set (spine book)) (ordered_documents book) =
         filter (\<lambda>d. get_id d \<notin> fst ` set (spine book)) ?docs"
    by (simp add: absent_iff od sort_key_stable)
  have "\<forall>d\<in>set (ordered_documents book).
      (get_id d \<in> fst ` set (spine book) \<longrightarrow> ?rank d < 999) \<and>
      (\<not> get_id d \<in> fst ` set (spine book) \<longrightarrow> ?rank d = 999)"
    using sort_rank_declared [of _ "spine book"] sort_rank_absent [of _ "spine book"] assms(2)
    by fastforce
  from sorted_two_blocks [OF sorted this]
  show "ordered_documents book =
         filter (\<lambda>d. get_id d \<in> fst ` set (spine book)) (ordered_documents book) @
         filter (\<lambda>d. get_id d \<notin> fst ` set (spine book)) (ordered_documents book)"
    by simp
qed

lemma chapter_id_inj: "chapter_id i = chapter_id j \<longleftrightarrow> i = j"
proof
  assume "chapter_id i = chapter_id j"
  then have "length (chapter_id i) = length (chapter_id j)" by simp
  then show "i = j" by (simp add: chapter_id_def)
qed simp

lemma notes_not_chapter: "''notes'' \<noteq> chapter_id i"
proof
  assume "''notes'' = chapter_id i"
  then have "CHR ''n'' \<in> set (chapter_id i)" by (metis list.set_intros(1))
  then show False by (simp add: chapter_id_def)
qed

lemma chapters_spine_order:
  "map_of (spine_order (map (\<lambda>i. (chapter_id i, ''yes'')) [0..<n])) k =
     (if \<exists>i<n. k = chapter_id i then Some (THE i. k = chapter_id i) else None)"
proof (induction n)
  case 0
  then show ?case by (simp add: spine_order_Nil)
next
  case (Suc n)
  have "map_of (spine_order (map (\<lambda>i. (chapter_id i, ''yes'')) [0..<Suc n])) k =
        ((map_of (spine_order (map (\<lambda>i. (chapter_id i, ''yes'')) [0..<n])))(chapter_id n \<mapsto> n)) k"
    using map_of_spine_order_snoc [of "map (\<lambda>i. (chapter_id i, ''yes'')) [0..<n]" "chapter_id n" "''yes''"]
    by simp
  also have "\<dots> = (if \<exists>i<Suc n. k = chapter_id i then Some (THE i. k = chapter_id i) else None)"
  proof (cases "k = chapter_id n")
    case True
    then show ?thesis by (auto simp: chapter_id_inj)
  next
    case False
    then show ?thesis using Suc by (auto simp: less_Suc_eq)
  qed
  finally show ?case .
qed

lemma rank_chapter:
  "i < 1000 \<Longrightarrow> sort_rank (spine_order (spine long_book)) (chapter_doc i) = i"
  by (auto simp: sort_rank_def long_book_def chapters_spine_order chapter_doc_def chapter_id_inj)

lemma rank_notes: "sort_rank (spine_order (spine long_book)) notes_doc = 999"
  by (simp add: sort_rank_def long_book_def chapters_spine_order notes_doc_def notes_not_chapter)

lemma insort_key_at:
  "\<forall>z\<in>set xs. f z < f x \<Longrightarrow> f x \<le> f y \<Longrightarrow>
   insort_key f x (xs @ y # ys) = xs @ x # y # ys"
  by (induction xs) auto

lemma sorted_chapters:
  "sort_key (sort_rank (spine_order (spine long_book))) (map chapter_doc [0..<1000]) =
     map chapter_doc [0..<1000]"
proof (rule sort_key_id_if_sorted)
  have "map (\<lambda>i. sort_rank (spine_order (spine long_book)) (chapter_doc i)) [0..<1000] = [0..<1000]"
    by (rule map_idI) (simp add: rank_chapter)
  then have "map (sort_rank (spine_order (spine long_book))) (map chapter_doc [0..<1000]) = [0..<1000]"
    by (simp add: o_def)
  then show "sorted (map (sort_rank (spine_order (spine long_book))) (map chapter_doc [0..<1000]))"
    by simp
qed

text \<open>
  C1 at a spine of 1000 entries: the notes, which the spine does not name, get the rank
  999 of the last chapter and were met before it, so the stable sort puts them before
  that chapter. The claim wants a document that the spine does not name after all the
  documents that it names.
\<close>

theorem absent_document_before_declared_one:
  "ordered_documents long_book = map chapter_doc [0..<999] @ [notes_doc, chapter_doc 999] \<and>
   get_id notes_doc \<notin> fst ` set (spine long_book) \<and>
   get_id (chapter_doc 999) \<in> fst ` set (spine long_book)"
proof -
  have docs: "filter (\<lambda>item. get_type item = ITEM_DOCUMENT) (get_items long_book) =
      notes_doc # map chapter_doc [0..<1000]"
    by (simp add: long_book_def notes_doc_def chapter_doc_def filter_map o_def)
  have ne: "spine long_book \<noteq> []"
    by (simp add: long_book_def)
  have split: "map chapter_doc [0..<1000] = map chapter_doc [0..<999] @ chapter_doc 999 # []"
  proof -
    have "[0..<1000] = [0..<999] @ [999]"
      using upt_Suc_append [of 0 999] by simp
    then show ?thesis by simp
  qed
  have "ordered_documents long_book =
      insort_key (sort_rank (spine_order (spine long_book))) notes_doc (map chapter_doc [0..<1000])"
    by (simp add: ordered_documents_def sort_documents_def docs ne sorted_chapters)
  also have "\<dots> = map chapter_doc [0..<999] @ notes_doc # chapter_doc 999 # []"
    unfolding split
    by (rule insort_key_at) (auto simp: rank_chapter rank_notes)
  finally have order: "ordered_documents long_book =
      map chapter_doc [0..<999] @ [notes_doc, chapter_doc 999]" by simp
  have "get_id notes_doc \<notin> fst ` set (spine long_book)"
    by (auto simp: long_book_def notes_doc_def notes_not_chapter)
  moreover have "get_id (chapter_doc 999) \<in> fst ` set (spine long_book)"
    by (force simp: long_book_def chapter_doc_def)
  ultimately show ?thesis using order by simp
qed

subsection \<open>ReferenceRewriter: the candidate keys\<close>



lemma set_dedup: "set (dedup xs) = set xs"
  by (induction xs) auto









lemma find_image_None:
  "find_image images keys = None \<longleftrightarrow> (\<forall>k\<in>set keys. k = [] \<or> map_of images k = None)"
  by (induction keys) (auto split: option.splits)


text \<open>
  The rewriter removes \<^verbatim>\<open>./\<close> and \<^verbatim>\<open>images/\<close> wherever they occur, where its comments say
  that it removes a prefix: it tries keys that are none of the claim's candidates.
\<close>

lemma replace_removes_everywhere:
  "possible_keys ''x/images/b.png'' = [''x/images/b.png'', ''b.png'', ''x/b.png''] \<and>
   candidates_as_specified ''x/images/b.png'' = [''x/images/b.png'', ''b.png''] \<and>
   possible_keys ''a./b.png'' = [''a./b.png'', ''b.png'', ''ab.png''] \<and>
   candidates_as_specified ''a./b.png'' = [''a./b.png'', ''b.png''] \<and>
   possible_keys ''../Images/cover.JPG'' =
     [''../Images/cover.JPG'', ''cover.JPG'', ''Images/cover.JPG'', ''.Images/cover.JPG'',
      ''../cover.JPG'']"
  by code_simp



subsection \<open>The matcher\<close>

lemma shift_shiftn: "shift (shiftn n r) = shiftn (Suc n) r"
  by (cases r; cases "snd r") (auto simp: shift_def shiftn_def)

lemma shift_eq_shiftn: "shift r = shiftn 1 r"
  by (cases r; cases "snd r") (auto simp: shift_def shiftn_def)

lemma shiftn_0: "shiftn 0 r = r"
  by (cases r; cases "snd r") (auto simp: shiftn_def)

lemma shiftn_shiftn: "shiftn m (shiftn n r) = shiftn (m + n) r"
  by (cases r; cases "snd r") (auto simp: shiftn_def)

lemma fst_shiftn: "fst (shiftn n r) = n + fst r"
  by (simp add: shiftn_def)

lemma map_shift_shiftn:
  "map_option shift (map_option (shiftn n) x) = map_option (shiftn (Suc n)) x"
  by (cases x) (simp_all add: shift_shiftn)

lemma rmatch_lit:
  "rmatch (lit p @ ts) (p @ s) = map_option (shiftn (length p)) (rmatch ts s)"
proof (induction p)
  case Nil
  then show ?case by (simp add: lit_def shiftn_0 option.map_ident cong: option.map_cong)
next
  case (Cons x p)
  then show ?case by (simp add: lit_def map_shift_shiftn)
qed

lemma rmatch_liti:
  "lower w = lower p \<Longrightarrow>
   rmatch (liti p @ ts) (w @ s) = map_option (shiftn (length p)) (rmatch ts s)"
proof (induction p arbitrary: w)
  case Nil
  then show ?case by (simp add: liti_def lower_def shiftn_0 option.map_ident cong: option.map_cong)
next
  case (Cons x p)
  then obtain y w' where w: "w = y # w'" "lower_char y = lower_char x" "lower w' = lower p"
    by (cases w) (auto simp: lower_def)
  with Cons.IH [of w'] show ?case by (simp add: liti_def map_shift_shiftn)
qed

lemma star_stop:
  "rest = [] \<or> \<not> cmatch c (hd rest) \<Longrightarrow> rmatch (Star c # ts) rest = rmatch ts rest"
  by (cases rest) auto

lemma star_prefix:
  "\<forall>x\<in>set a. cmatch c x \<Longrightarrow> rmatch (Star c # ts) s = Some r \<Longrightarrow>
   rmatch (Star c # ts) (a @ s) = Some (shiftn (length a) r)"
  by (induction a) (simp_all add: shiftn_0 shift_shiftn)

lemma star_take_all:
  "\<forall>x\<in>set a. cmatch c x \<Longrightarrow> rest = [] \<or> \<not> cmatch c (hd rest) \<Longrightarrow>
   rmatch ts rest = Some r \<Longrightarrow>
   rmatch (Star c # ts) (a @ rest) = Some (shiftn (length a) r)"
  by (rule star_prefix) (simp_all add: star_stop)

lemma star_fail:
  "\<forall>x\<in>set a. cmatch c x \<Longrightarrow> rest = [] \<or> \<not> cmatch c (hd rest) \<Longrightarrow>
   \<forall>k\<le>length a. rmatch ts (drop k a @ rest) = None \<Longrightarrow>
   rmatch (Star c # ts) (a @ rest) = None"
proof (induction a)
  case Nil
  then show ?case by (simp add: star_stop)
next
  case (Cons x a)
  have "\<forall>k\<le>length a. rmatch ts (drop k a @ rest) = None"
  proof (intro allI impI)
    fix k assume "k \<le> length a"
    then have "Suc k \<le> length (x # a)" by simp
    with Cons.prems(3) have "rmatch ts (drop (Suc k) (x # a) @ rest) = None" by blast
    then show "rmatch ts (drop k a @ rest) = None" by simp
  qed
  with Cons have inner: "rmatch (Star c # ts) (a @ rest) = None" by simp
  from Cons.prems(3) have "rmatch ts (drop 0 (x # a) @ rest) = None" by blast
  with inner Cons.prems(1) show ?case by simp
qed

lemma star_backtrack:
  assumes "\<forall>x\<in>set a1. cmatch c x" and "\<forall>x\<in>set a2. cmatch c x"
    and "rest = [] \<or> \<not> cmatch c (hd rest)"
    and "rmatch ts (a2 @ rest) = Some r"
    and "\<forall>k. 0 < k \<and> k \<le> length a2 \<longrightarrow> rmatch ts (drop k a2 @ rest) = None"
  shows "rmatch (Star c # ts) (a1 @ a2 @ rest) = Some (shiftn (length a1) r)"
proof -
  have here: "rmatch (Star c # ts) (a2 @ rest) = Some r"
  proof (cases a2)
    case Nil
    with assms(3,4) show ?thesis by (simp add: star_stop)
  next
    case (Cons x a2')
    have "\<forall>k\<le>length a2'. rmatch ts (drop k a2' @ rest) = None"
    proof (intro allI impI)
      fix k assume "k \<le> length a2'"
      then have "0 < Suc k \<and> Suc k \<le> length a2" using Cons by simp
      with assms(5) have "rmatch ts (drop (Suc k) a2 @ rest) = None" by blast
      then show "rmatch ts (drop k a2' @ rest) = None" using Cons by simp
    qed
    with assms(2,3) Cons have "rmatch (Star c # ts) (a2' @ rest) = None"
      by (intro star_fail) simp_all
    with assms(2,4) Cons show ?thesis by simp
  qed
  from star_prefix [OF assms(1) here] show ?thesis .
qed

lemma lazy_until:
  "\<forall>x\<in>set a. cmatch c x \<Longrightarrow> \<forall>k<length a. rmatch ts (drop k a @ rest) = None \<Longrightarrow>
   rmatch ts rest = Some r \<Longrightarrow>
   rmatch (LazyStar c # ts) (a @ rest) = Some (shiftn (length a) r)"
proof (induction a)
  case Nil
  then show ?case by (cases rest) (simp_all add: shiftn_0)
next
  case (Cons x a)
  have "\<forall>k<length a. rmatch ts (drop k a @ rest) = None"
  proof (intro allI impI)
    fix k assume "k < length a"
    then have "Suc k < length (x # a)" by simp
    with Cons.prems(2) have "rmatch ts (drop (Suc k) (x # a) @ rest) = None" by blast
    then show "rmatch ts (drop k a @ rest) = None" by simp
  qed
  with Cons have inner: "rmatch (LazyStar c # ts) (a @ rest) = Some (shiftn (length a) r)"
    by simp
  from Cons.prems(2) have "rmatch ts (drop 0 (x # a) @ rest) = None" by blast
  with inner Cons.prems(1) show ?case by (simp add: shift_shiftn)
qed

lemma rmatch_le: "rmatch ts s = Some r \<Longrightarrow> fst r \<le> length s"
proof (induction ts s arbitrary: r rule: rmatch.induct)
  case (1 s)
  then show ?case by auto
next
  case (2 ts s)
  then show ?case by auto
next
  case (3 ts s)
  then show ?case by auto
next
  case (4 c ts)
  then show ?case by simp
next
  case (5 c ts x xs)
  then show ?case by (auto simp: shift_def split: if_splits)
next
  case (6 c ts)
  then show ?case by simp
next
  case (7 c ts x xs)
  then show ?case by (auto simp: shift_def split: if_splits)
next
  case (8 c ts)
  then show ?case by simp
next
  case (9 c ts x xs)
  then show ?case by (auto simp: shift_def split: if_splits option.splits)
next
  case (10 c ts)
  then show ?case by simp
next
  case (11 c ts x xs)
  then show ?case by (auto simp: shift_def split: if_splits option.splits)
qed

lemma sub_skip:
  "\<forall>k<length pre. rmatch ts (drop k pre @ rest) = None \<Longrightarrow>
   sub ts f (pre @ rest) = pre @ sub ts f rest"
proof (induction pre)
  case Nil
  then show ?case by simp
next
  case (Cons x pre)
  have "\<forall>k<length pre. rmatch ts (drop k pre @ rest) = None"
  proof (intro allI impI)
    fix k assume "k < length pre"
    then have "Suc k < length (x # pre)" by simp
    with Cons.prems have "rmatch ts (drop (Suc k) (x # pre) @ rest) = None" by blast
    then show "rmatch ts (drop k pre @ rest) = None" by simp
  qed
  with Cons.IH have ih: "sub ts f (pre @ rest) = pre @ sub ts f rest" by simp
  from Cons.prems have "rmatch ts (drop 0 (x # pre) @ rest) = None" by blast
  with ih show ?case by simp
qed

lemma sub_match:
  "rmatch ts (m @ rest) = Some (length m, g) \<Longrightarrow> m \<noteq> [] \<Longrightarrow>
   sub ts f (m @ rest) = f m (group1 (m @ rest) (length m, g)) @ sub ts f rest"
proof -
  assume a: "rmatch ts (m @ rest) = Some (length m, g)" and ne: "m \<noteq> []"
  then obtain x m' where m: "m = x # m'" by (cases m) auto
  with a show ?thesis by (simp add: group0_def)
qed

lemma search_skip:
  "\<forall>k<length pre. rmatch ts (drop k pre @ rest) = None \<Longrightarrow>
   search ts (pre @ rest) = map_option (\<lambda>(i, r). (length pre + i, r)) (search ts rest)"
proof (induction pre)
  case Nil
  then show ?case by (simp add: option.map_ident cong: option.map_cong)
next
  case (Cons x pre)
  have "\<forall>k<length pre. rmatch ts (drop k pre @ rest) = None"
  proof (intro allI impI)
    fix k assume "k < length pre"
    then have "Suc k < length (x # pre)" by simp
    with Cons.prems have "rmatch ts (drop (Suc k) (x # pre) @ rest) = None" by blast
    then show "rmatch ts (drop k pre @ rest) = None" by simp
  qed
  with Cons.IH have ih: "search ts (pre @ rest) =
      map_option (\<lambda>(i, r). (length pre + i, r)) (search ts rest)" by simp
  from Cons.prems have "rmatch ts (drop 0 (x # pre) @ rest) = None" by blast
  with ih show ?case by (simp add: option.map_comp o_def split_def)
qed

lemma search_here:
  "rmatch ts s = Some r \<Longrightarrow> search ts s = Some (0, r)"
  by (cases s) simp_all

subsection \<open>ReferenceRewriter: a reference that is not in the map\<close>

lemma lower_char_lt: "lower_char x = CHR ''<'' \<longleftrightarrow> x = CHR ''<''"
  by (cases x) (auto simp: lower_char_def ascii_uppercase_def)

lemma lower_char_gt: "lower_char x = CHR ''>'' \<longleftrightarrow> x = CHR ''>''"
  by (cases x) (auto simp: lower_char_def ascii_uppercase_def)

lemma lower_char_eq: "lower_char x = CHR ''='' \<longleftrightarrow> x = CHR ''=''"
  by (cases x) (auto simp: lower_char_def ascii_uppercase_def)

lemma lower_char_s: "lower_char x = CHR ''s'' \<longleftrightarrow> x = CHR ''s'' \<or> x = CHR ''S''"
proof (cases "x \<in> set ascii_uppercase")
  case True
  then show ?thesis by (auto simp: lower_char_def ascii_uppercase_def)
next
  case False
  then show ?thesis by (auto simp: lower_char_def ascii_uppercase_def)
qed

lemma lower_char_lower [simp]:
  "lower_char CHR ''<'' = CHR ''<''" "lower_char CHR ''>'' = CHR ''>''"
  "lower_char CHR ''='' = CHR ''=''" "lower_char CHR ''s'' = CHR ''s''"
  "lower_char CHR ''r'' = CHR ''r''" "lower_char CHR ''c'' = CHR ''c''"
  by (simp_all add: lower_char_def ascii_uppercase_def)

text \<open>After \<^verbatim>\<open>src\<close>, a text with no \<^verbatim>\<open>=\<close> before its first quote is no attribute.\<close>

lemma no_equals_no_match:
  "\<forall>x\<in>set t. x \<noteq> CHR ''='' \<Longrightarrow> q \<in> set quotes \<Longrightarrow>
   rmatch (Star Space # One (LitI CHR ''='') # ts) (t @ q # u) = None"
proof (induction t)
  case Nil
  then show ?case by (auto simp: quotes_def whitespace_def lower_char_eq)
next
  case (Cons x t)
  then have "rmatch (Star Space # One (LitI CHR ''='') # ts) (t @ q # u) = None" by simp
  moreover have "x \<noteq> CHR ''=''" using Cons.prems by simp
  ultimately show ?case by (simp add: lower_char_eq)
qed

lemma lower_char_quote: "q \<in> set quotes \<Longrightarrow> lower_char q = q"
  by (auto simp: quotes_def lower_char_def ascii_uppercase_def)

lemma quote_not_src:
  "q \<in> set quotes \<Longrightarrow> q \<noteq> CHR ''s'' \<and> q \<noteq> CHR ''S'' \<and> q \<noteq> CHR ''r'' \<and> q \<noteq> CHR ''c''"
  by (auto simp: quotes_def)

lemma src_needs_equals:
  assumes "\<forall>x\<in>set t. x \<noteq> CHR ''=''" and "q \<in> set quotes"
  shows "rmatch (liti ''src'' @ Star Space # One (LitI CHR ''='') # ts) (t @ q # u) = None"
proof -
  note q = lower_char_quote [OF assms(2)] quote_not_src [OF assms(2)]
  show ?thesis
  proof (cases t)
    case Nil
    then show ?thesis using q by (simp add: liti_def)
  next
    case t1: (Cons x1 t1)
    show ?thesis
    proof (cases t1)
      case Nil
      with t1 show ?thesis using q by (simp add: liti_def)
    next
      case t2: (Cons x2 t2)
      show ?thesis
      proof (cases t2)
        case Nil
        with t1 t2 show ?thesis using q by (simp add: liti_def)
      next
        case t3: (Cons x3 t3)
        have "\<forall>x\<in>set t3. x \<noteq> CHR ''=''" using assms(1) t1 t2 t3 by simp
        from no_equals_no_match [OF this assms(2)]
        have "rmatch (Star Space # One (LitI CHR ''='') # ts) (t3 @ q # u) = None" .
        with t1 t2 t3 show ?thesis by (simp add: liti_def)
      qed
    qed
  qed
qed

lemma star_backtrack_suffix:
  assumes "\<forall>x\<in>set a1. cmatch c x" and "\<forall>x\<in>set a2. cmatch c x"
    and "rest = [] \<or> \<not> cmatch c (hd rest)"
    and "rmatch ts (a2 @ rest) = Some r"
    and "\<forall>s'. strict_suffix s' a2 \<longrightarrow> rmatch ts (s' @ rest) = None"
  shows "rmatch (Star c # ts) (a1 @ a2 @ rest) = Some (shiftn (length a1) r)"
proof (rule star_backtrack [OF assms(1-4)], intro allI impI)
  fix k assume k: "0 < k \<and> k \<le> length a2"
  have "suffix (drop k a2) a2" by (rule suffix_drop)
  moreover have "drop k a2 \<noteq> a2"
  proof
    assume "drop k a2 = a2"
    then have "length a2 - k = length a2" by (metis length_drop)
    with k show False by arith
  qed
  ultimately have "strict_suffix (drop k a2) a2" by (simp add: strict_suffix_def)
  with assms(5) show "rmatch ts (drop k a2 @ rest) = None" by blast
qed

text \<open>The part of \<^const>\<open>img_pattern\<close> after \<^verbatim>\<open><img[^>]*\<close>.\<close>

lemma img_pattern_split:
  "img_pattern = liti ''<img'' @ Star (NoneOf ''>'') #
     (liti ''src'' @ Star Space # One (LitI CHR ''='') #
        [Star Space, One (AnyOf quotes), GroupOpen, Plus (NoneOf quotes), GroupClose,
         One (AnyOf quotes), Star (NoneOf ''>''), One (LitI CHR ''>'')])"
  by (simp add: img_pattern_def liti_def)

lemma attribute_matches:
  assumes q1: "q1 \<in> set quotes" and q2: "q2 \<in> set quotes"
    and ref: "ref \<noteq> []" "\<forall>x\<in>set ref. x \<notin> set quotes"
    and attrs2: "\<forall>x\<in>set attrs2. x \<noteq> CHR ''>''"
  shows "rmatch (liti ''src'' @ Star Space # One (LitI CHR ''='') #
        [Star Space, One (AnyOf quotes), GroupOpen, Plus (NoneOf quotes), GroupClose,
         One (AnyOf quotes), Star (NoneOf ''>''), One (LitI CHR ''>'')])
      (''src='' @ q1 # ref @ q2 # attrs2 @ CHR ''>'' # after)
    = Some (length ref + length attrs2 + 7, Some (5, 5 + length ref))"
proof -
  have tail: "rmatch [Star (NoneOf ''>''), One (LitI CHR ''>'')] (attrs2 @ CHR ''>'' # after)
      = Some (shiftn (length attrs2) (1, None))"
    using attrs2 by (intro star_take_all) (simp_all add: shift_def)
  have close: "rmatch [GroupClose, One (AnyOf quotes), Star (NoneOf ''>''), One (LitI CHR ''>'')]
      (q2 # attrs2 @ CHR ''>'' # after) = Some (length attrs2 + 2, Some (0, 0))"
    using q2 by (simp add: tail shift_def shiftn_def)
  obtain x ref' where r: "ref = x # ref'" using ref(1) by (cases ref) auto
  have "rmatch (Star (NoneOf quotes) #
        [GroupClose, One (AnyOf quotes), Star (NoneOf ''>''), One (LitI CHR ''>'')])
      (ref' @ q2 # attrs2 @ CHR ''>'' # after)
      = Some (shiftn (length ref') (length attrs2 + 2, Some (0, 0)))"
    using ref(2) r q2 close by (intro star_take_all) simp_all
  then have plus: "rmatch (Plus (NoneOf quotes) #
        [GroupClose, One (AnyOf quotes), Star (NoneOf ''>''), One (LitI CHR ''>'')])
      (ref @ q2 # attrs2 @ CHR ''>'' # after)
      = Some (length ref + length attrs2 + 2, Some (length ref, length ref))"
    using ref(2) r by (simp add: shift_def shiftn_def)
  have q1s: "q1 \<notin> set whitespace" using q1 by (auto simp: quotes_def whitespace_def)
  have "rmatch [Star Space, One (AnyOf quotes), GroupOpen, Plus (NoneOf quotes), GroupClose,
         One (AnyOf quotes), Star (NoneOf ''>''), One (LitI CHR ''>'')]
      (q1 # ref @ q2 # attrs2 @ CHR ''>'' # after)
      = Some (length ref + length attrs2 + 3, Some (1, 1 + length ref))"
    using q1 q1s by (simp add: plus shift_def)
  then show ?thesis
    by (simp add: liti_def shift_def whitespace_def)
qed

lemma attribute_no_later_match:
  assumes q1: "q1 \<in> set quotes" and q2: "q2 \<in> set quotes"
    and ref: "\<forall>x\<in>set ref. x \<noteq> CHR ''=''"
    and attrs2: "\<forall>x\<in>set attrs2. x \<noteq> CHR ''s'' \<and> x \<noteq> CHR ''S''"
    and s': "strict_suffix s' (''src='' @ q1 # ref @ q2 # attrs2)"
  shows "rmatch (liti ''src'' @ Star Space # One (LitI CHR ''='') # ts)
           (s' @ CHR ''>'' # after) = None"
proof -
  note q1' = lower_char_quote [OF q1] quote_not_src [OF q1]
  have first: "rmatch (liti ''src'' @ Star Space # One (LitI CHR ''='') # ts) (y # u) = None"
    if "y \<noteq> CHR ''s''" "y \<noteq> CHR ''S''" for y u
    using that by (simp add: liti_def lower_char_s)
  from s' have "suffix s' (''rc='' @ q1 # ref @ q2 # attrs2)"
    by (auto simp: strict_suffix_def suffix_Cons)
  then consider "s' = ''rc='' @ q1 # ref @ q2 # attrs2" | "s' = ''c='' @ q1 # ref @ q2 # attrs2"
    | "s' = ''='' @ q1 # ref @ q2 # attrs2" | "s' = q1 # ref @ q2 # attrs2"
    | "suffix s' (ref @ q2 # attrs2)"
    by (auto simp: suffix_Cons)
  then show ?thesis
  proof cases
    case 1
    then show ?thesis using first [of "CHR ''r''"] by simp
  next
    case 2
    then show ?thesis using first [of "CHR ''c''"] by simp
  next
    case 3
    then show ?thesis using first [of "CHR ''=''"] by simp
  next
    case 4
    then show ?thesis using first [of q1] q1' by simp
  next
    case 5
    then consider t where "suffix t ref" "s' = t @ q2 # attrs2" | "suffix s' attrs2"
      by (auto simp: suffix_append suffix_Cons)
    then show ?thesis
    proof cases
      case 1
      then have "\<forall>x\<in>set t. x \<noteq> CHR ''=''"
        using ref by (meson set_mono_suffix subsetD)
      from src_needs_equals [OF this q2] 1 show ?thesis by simp
    next
      case 2
      show ?thesis
      proof (cases s')
        case Nil
        then show ?thesis using first [of "CHR ''>''"] by simp
      next
        case (Cons y s'')
        then have "y \<in> set attrs2" using 2 by (meson list.set_intros(1) set_mono_suffix subsetD)
        with attrs2 Cons show ?thesis using first [of y] by simp
      qed
    qed
  qed
qed

text \<open>The pattern \<^const>\<open>img_pattern\<close> at a tag with one attribute \<^verbatim>\<open>src\<close>.\<close>

lemma img_tag_matches:
  assumes i: "lower i = ''<img''"
    and attrs1: "\<forall>x\<in>set attrs1. x \<noteq> CHR ''>''"
    and attrs2: "\<forall>x\<in>set attrs2. x \<noteq> CHR ''>'' \<and> x \<noteq> CHR ''s'' \<and> x \<noteq> CHR ''S''"
    and q1: "q1 \<in> set quotes" and q2: "q2 \<in> set quotes"
    and ref: "ref \<noteq> []"
      "\<forall>x\<in>set ref. x \<notin> set quotes \<and> x \<noteq> CHR ''>'' \<and> x \<noteq> CHR ''=''"
  shows "rmatch img_pattern
           (i @ attrs1 @ ''src='' @ q1 # ref @ q2 # attrs2 @ CHR ''>'' # after)
    = Some (length (i @ attrs1 @ ''src='' @ q1 # ref @ q2 # attrs2 @ ''>''),
            Some (length i + length attrs1 + 5, length i + length attrs1 + 5 + length ref))"
proof -
  let ?T = "liti ''src'' @ Star Space # One (LitI CHR ''='') #
        [Star Space, One (AnyOf quotes), GroupOpen, Plus (NoneOf quotes), GroupClose,
         One (AnyOf quotes), Star (NoneOf ''>''), One (LitI CHR ''>'')]"
  let ?a2 = "''src='' @ q1 # ref @ q2 # attrs2"
  have "length (lower i) = length ''<img''" using i by simp
  then have li: "length i = 4" by (simp add: lower_def)
  have q1gt: "q1 \<noteq> CHR ''>''" and q2gt: "q2 \<noteq> CHR ''>''"
    using q1 q2 by (auto simp: quotes_def)
  have run1: "\<forall>x\<in>set attrs1. cmatch (NoneOf ''>'') x" using attrs1 by simp
  have run2: "\<forall>x\<in>set ?a2. cmatch (NoneOf ''>'') x"
    using attrs2 ref(2) q1gt q2gt by auto
  have here: "rmatch ?T (?a2 @ CHR ''>'' # after)
      = Some (length ref + length attrs2 + 7, Some (5, 5 + length ref))"
    using attribute_matches [OF q1 q2 ref(1), of attrs2 after] ref(2) attrs2 by simp
  have later: "\<forall>s'. strict_suffix s' ?a2 \<longrightarrow> rmatch ?T (s' @ CHR ''>'' # after) = None"
    using attribute_no_later_match [OF q1 q2, of ref attrs2] ref(2) attrs2 by blast
  have star: "rmatch (Star (NoneOf ''>'') # ?T) (attrs1 @ ?a2 @ CHR ''>'' # after)
      = Some (shiftn (length attrs1) (length ref + length attrs2 + 7, Some (5, 5 + length ref)))"
    using run1 run2 _ here later by (rule star_backtrack_suffix) simp
  have "lower i = lower ''<img''"
    using i by (simp add: lower_def lower_char_def ascii_uppercase_def)
  then have "rmatch (liti ''<img'' @ Star (NoneOf ''>'') # ?T)
        (i @ attrs1 @ ?a2 @ CHR ''>'' # after)
      = map_option (shiftn (length ''<img''))
          (rmatch (Star (NoneOf ''>'') # ?T) (attrs1 @ ?a2 @ CHR ''>'' # after))"
    by (rule rmatch_liti)
  then have "rmatch img_pattern (i @ attrs1 @ ?a2 @ CHR ''>'' # after)
      = Some (shiftn (length ''<img'') (shiftn (length attrs1)
               (length ref + length attrs2 + 7, Some (5, 5 + length ref))))"
    by (simp only: img_pattern_split star option.map)
  then show ?thesis by (simp add: shiftn_def li)
qed

text \<open>The pattern \<^const>\<open>src_pattern\<close> in the same tag: the first match is the attribute.\<close>

lemma src_attribute_replaced:
  assumes pre: "\<forall>x\<in>set pre. x \<noteq> CHR ''s''"
    and q1: "q1 \<in> set quotes" and q2: "q2 \<in> set quotes"
    and ref: "ref \<noteq> []" "\<forall>x\<in>set ref. x \<notin> set quotes"
  shows "sub_first src_pattern template (pre @ ''src='' @ q1 # ref @ q2 # post)
    = pre @ template @ post"
proof -
  let ?rest = "''src='' @ q1 # ref @ q2 # post"
  have skip: "\<forall>k<length pre. rmatch src_pattern (drop k pre @ ?rest) = None"
  proof (intro allI impI)
    fix k assume k: "k < length pre"
    then obtain y u where d: "drop k pre = y # u" by (cases "drop k pre") auto
    then have "y \<in> set pre" by (metis in_set_dropD list.set_intros(1))
    with pre have "y \<noteq> CHR ''s''" by blast
    with d show "rmatch src_pattern (drop k pre @ ?rest) = None"
      by (simp add: src_pattern_def lit_def)
  qed
  obtain x ref' where r: "ref = x # ref'" using ref(1) by (cases ref) auto
  have "rmatch [Star (NoneOf quotes), One (AnyOf quotes)] (ref' @ q2 # post)
      = Some (shiftn (length ref') (1, None))"
    using ref(2) r q2 by (intro star_take_all) (simp_all add: shift_def)
  then have plus: "rmatch [Plus (NoneOf quotes), One (AnyOf quotes)] (ref @ q2 # post)
      = Some (length ref + 1, None)"
    using ref(2) r by (simp add: shift_def shiftn_def)
  have q1s: "q1 \<notin> set whitespace" using q1 by (auto simp: quotes_def whitespace_def)
  have "rmatch src_pattern ?rest = Some (length ref + 6, None)"
    using q1 q1s by (simp add: src_pattern_def lit_def plus shift_def whitespace_def)
  then have "search src_pattern ?rest = Some (0, length ref + 6, None)"
    by (rule search_here)
  with search_skip [OF skip]
  have "search src_pattern (pre @ ?rest) = Some (length pre, length ref + 6, None)"
    by simp
  moreover have "drop (length ref + 6) ?rest = post"
  proof -
    have "?rest = (''src='' @ q1 # ref @ [q2]) @ post" by simp
    moreover have "length (''src='' @ q1 # ref @ [q2]) = length ref + 6" by simp
    ultimately show ?thesis by (metis append_eq_conv_conj)
  qed
  ultimately show ?thesis by (simp add: sub_first_def add.assoc del: append_Cons drop_Suc_Cons)
qed


lemma lower_char_i: "lower_char x = CHR ''i'' \<longleftrightarrow> x = CHR ''i'' \<or> x = CHR ''I''"
proof (cases "x \<in> set ascii_uppercase")
  case True
  then show ?thesis by (auto simp: lower_char_def ascii_uppercase_def)
next
  case False
  then show ?thesis by (auto simp: lower_char_def ascii_uppercase_def)
qed

lemma img_needs_lt_i:
  "y \<noteq> CHR ''<'' \<or> (z \<noteq> CHR ''i'' \<and> z \<noteq> CHR ''I'') \<Longrightarrow>
   rmatch img_pattern (y # z # u) = None"
  by (auto simp: img_pattern_def liti_def lower_char_lt lower_char_i lower_char_def
      ascii_uppercase_def)

lemma no_img_before:
  assumes "\<not> sublist ''<i'' before" and "\<not> sublist ''<I'' before"
    and "rest = CHR ''<'' # rest'"
  shows "\<forall>k<length before. rmatch img_pattern (drop k before @ rest) = None"
proof (intro allI impI)
  fix k assume "k < length before"
  then obtain y u where d: "drop k before = y # u" by (cases "drop k before") auto
  show "rmatch img_pattern (drop k before @ rest) = None"
  proof (cases u)
    case Nil
    with d assms(3) show ?thesis using img_needs_lt_i [of y "CHR ''<''" rest'] by simp
  next
    case (Cons z u')
    have before: "before = take k before @ [y, z] @ u'"
      using d Cons by (metis append_take_drop_id append_Cons append_Nil)
    have "y = CHR ''<'' \<longrightarrow> z \<noteq> CHR ''i'' \<and> z \<noteq> CHR ''I''"
    proof (intro impI conjI)
      assume y: "y = CHR ''<''"
      show "z \<noteq> CHR ''i''"
      proof
        assume "z = CHR ''i''"
        with y before have "before = take k before @ ''<i'' @ u'" by simp
        then have "sublist ''<i'' before" unfolding sublist_def by blast
        with assms(1) show False by blast
      qed
      show "z \<noteq> CHR ''I''"
      proof
        assume "z = CHR ''I''"
        with y before have "before = take k before @ ''<I'' @ u'" by simp
        then have "sublist ''<I'' before" unfolding sublist_def by blast
        with assms(2) show False by blast
      qed
    qed
    then show ?thesis using d Cons img_needs_lt_i [of y z "u' @ rest"] by auto
  qed
qed

lemma img_chars:
  assumes "lower i = ''<img''"
  shows "\<exists>rest. i = CHR ''<'' # rest" and "\<forall>x\<in>set i. x \<noteq> CHR ''s''"
proof -
  from assms obtain a b c d where i: "i = [a, b, c, d]"
    and l: "lower_char a = CHR ''<''" "lower_char b = CHR ''i''" "lower_char c = CHR ''m''"
      "lower_char d = CHR ''g''"
    by (auto simp: lower_def)
  from l(1) have "a = CHR ''<''" by (simp add: lower_char_lt)
  with i show "\<exists>rest. i = CHR ''<'' # rest" by simp
  have "lower_char x \<noteq> CHR ''s''" if "x \<in> set i" for x
    using that i l by auto
  then show "\<forall>x\<in>set i. x \<noteq> CHR ''s''" by (metis lower_char_lower(4))
qed

text \<open>
  C4, amended: with an ImageMap that is not empty, take an image tag written
  \<^verbatim>\<open><img\<close> in any case, then attributes, then \<^verbatim>\<open>src=\<close> in lower case with the reference
  between quotes, then attributes, then \<^verbatim>\<open>>\<close>. When the reference is no data reference
  and none of its candidates that is not empty is a key of the map, the rewriter puts the
  placeholder \<^verbatim>\<open>#\<close> where the reference was, leaves the rest of the tag as it is, and
  goes on with the text after the tag. The rewriter is a total function: no exception
  reaches the caller. The text before the tag holds no \<^verbatim>\<open><i\<close>, so that no image tag
  starts in it; the attributes hold no \<^verbatim>\<open>>\<close> and no \<^verbatim>\<open>s\<close>, so that the tag has one
  attribute \<^verbatim>\<open>src\<close>; the reference holds no \<^verbatim>\<open>=\<close> and no \<^verbatim>\<open>>\<close>.
\<close>

theorem unmatched_reference_gets_placeholder:
  assumes images: "images \<noteq> []"
    and i: "lower i = ''<img''"
    and attrs1: "\<forall>x\<in>set attrs1. x \<noteq> CHR ''>'' \<and> x \<noteq> CHR ''s''"
    and attrs2: "\<forall>x\<in>set attrs2. x \<noteq> CHR ''>'' \<and> x \<noteq> CHR ''s'' \<and> x \<noteq> CHR ''S''"
    and q1: "q1 \<in> set quotes" and q2: "q2 \<in> set quotes"
    and ref: "ref \<noteq> []"
      "\<forall>x\<in>set ref. x \<notin> set quotes \<and> x \<noteq> CHR ''>'' \<and> x \<noteq> CHR ''=''"
    and no_data: "\<not> prefix ''data:'' ref"
    and unmatched: "\<forall>k\<in>set (possible_keys ref). k = [] \<or> map_of images k = None"
    and before: "\<not> sublist ''<i'' before" "\<not> sublist ''<I'' before"
  shows "replace_image_references
           (before @ i @ attrs1 @ ''src='' @ q1 # ref @ q2 # attrs2 @ ''>'' @ after) images
         = before @ i @ attrs1 @ ''src='' @ CHR 0x22 # ''#'' @ CHR 0x22 # attrs2 @ ''>''
           @ replace_image_references after images"
proof -
  let ?tag = "i @ attrs1 @ ''src='' @ q1 # ref @ q2 # attrs2 @ ''>''"
  let ?b = "length i + length attrs1 + 5"
  let ?g = "Some (?b, ?b + length ref)"
  let ?f = "replace_img_src images"
  have m: "rmatch img_pattern (?tag @ after) = Some (length ?tag, ?g)"
    using img_tag_matches [OF i _ attrs2 q1 q2 ref, of attrs1 after] attrs1 by simp
  have g1: "group1 (?tag @ after) (length ?tag, ?g) = ref"
  proof -
    have "?tag @ after = (i @ attrs1 @ ''src='' @ [q1]) @ ref @ (q2 # attrs2 @ ''>'' @ after)"
      by simp
    moreover have "length (i @ attrs1 @ ''src='' @ [q1]) = ?b" by simp
    ultimately have "drop ?b (?tag @ after) = ref @ (q2 # attrs2 @ ''>'' @ after)"
      by (metis append_eq_conv_conj)
    then show ?thesis by (simp add: group1_def)
  qed
  have none: "find_image images (possible_keys ref) = None"
    using unmatched by (simp add: find_image_None)
  have pre: "\<forall>x\<in>set (i @ attrs1). x \<noteq> CHR ''s''"
    using img_chars(2) [OF i] attrs1 by auto
  have "?f ?tag ref = sub_first src_pattern (''src='' @ CHR 0x22 # ''#'' @ [CHR 0x22]) ?tag"
    using no_data none by (simp add: replace_img_src_def)
  also have "\<dots> = (i @ attrs1) @ (''src='' @ CHR 0x22 # ''#'' @ [CHR 0x22]) @ (attrs2 @ ''>'')"
    using src_attribute_replaced [OF pre q1 q2 ref(1), of "''src='' @ CHR 0x22 # ''#'' @ [CHR 0x22]"
        "attrs2 @ ''>''"] ref(2)
    by simp
  finally have f: "?f ?tag ref = i @ attrs1 @ ''src='' @ CHR 0x22 # ''#'' @ CHR 0x22 # attrs2 @ ''>''"
    by simp
  have ne: "?tag \<noteq> []" using img_chars(1) [OF i] by auto
  have at: "sub img_pattern ?f (?tag @ after) = ?f ?tag ref @ sub img_pattern ?f after"
    using sub_match [OF m ne, of ?f] by (simp only: g1)
  obtain rest' where "?tag @ after = CHR ''<'' # rest'"
    using img_chars(1) [OF i] by auto
  from no_img_before [OF before this]
  have "sub img_pattern ?f (before @ ?tag @ after) = before @ sub img_pattern ?f (?tag @ after)"
    by (rule sub_skip)
  with at f have "sub img_pattern ?f (before @ ?tag @ after)
      = before @ (i @ attrs1 @ ''src='' @ CHR 0x22 # ''#'' @ CHR 0x22 # attrs2 @ ''>'')
        @ sub img_pattern ?f after"
    by simp
  then show ?thesis
    using images by (simp add: replace_image_references_def)
qed

text \<open>
  C4, as stated, at the empty ImageMap: the reference matches no candidate in the map,
  and the rewriter leaves it in the tag.
\<close>

theorem dangling_reference_stays_counterexample:
  \<open>find_image [] (possible_keys ''missing.gif'') = None \<and>
   replace_image_references ''<p>Three</p><img src="missing.gif">'' []
     = ''<p>Three</p><img src="missing.gif">''\<close>
  by code_simp

lemma demo_unmatched:
  "\<forall>k\<in>set (possible_keys ''missing.gif'').
     k = [] \<or> map_of [(''images/a.png'', ''data:image/png;base64,YWJj''),
                        (''a.png'', ''data:image/png;base64,YWJj'')] k = None"
  by code_simp

lemma demo_after:
  "replace_image_references ''<p>end</p>''
     [(''images/a.png'', ''data:image/png;base64,YWJj''),
      (''a.png'', ''data:image/png;base64,YWJj'')] = ''<p>end</p>''"
  by code_simp

lemma demo_before: "\<not> sublist ''<i'' ''<p>Three</p>''" "\<not> sublist ''<I'' ''<p>Three</p>''"
  by code_simp+

theorem unmatched_reference_gets_placeholder_witness:
  \<open>replace_image_references ''<p>Three</p><IMG alt="x" src="missing.gif" /><p>end</p>''
     [(''images/a.png'', ''data:image/png;base64,YWJj''),
      (''a.png'', ''data:image/png;base64,YWJj'')]
   = ''<p>Three</p><IMG alt="x" src="#" /><p>end</p>''\<close>
proof -
  let ?images = "[(''images/a.png'', ''data:image/png;base64,YWJj''),
      (''a.png'', ''data:image/png;base64,YWJj'')]"
  have "?images \<noteq> []" by simp
  moreover have "lower ''<IMG'' = ''<img''"
    by (simp add: lower_def lower_char_def ascii_uppercase_def)
  moreover have "\<forall>x\<in>set ([CHR 0x20] @ ''alt='' @ [CHR 0x22] @ ''x'' @ [CHR 0x22, CHR 0x20]).
      x \<noteq> CHR ''>'' \<and> x \<noteq> CHR ''s''" by simp
  moreover have "\<forall>x\<in>set [CHR 0x20, CHR ''/'']. x \<noteq> CHR ''>'' \<and> x \<noteq> CHR ''s'' \<and> x \<noteq> CHR ''S''"
    by simp
  moreover have "CHR 0x22 \<in> set quotes" by (simp add: quotes_def)
  moreover have "''missing.gif'' \<noteq> []" by simp
  moreover have "\<forall>x\<in>set ''missing.gif''. x \<notin> set quotes \<and> x \<noteq> CHR ''>'' \<and> x \<noteq> CHR ''=''"
    by (simp add: quotes_def)
  moreover have "\<not> prefix ''data:'' ''missing.gif''" by simp
  ultimately have "replace_image_references
      (''<p>Three</p>'' @ ''<IMG'' @ ([CHR 0x20] @ ''alt='' @ [CHR 0x22] @ ''x'' @ [CHR 0x22, CHR 0x20])
        @ ''src='' @ CHR 0x22 # ''missing.gif'' @ CHR 0x22 # [CHR 0x20, CHR ''/''] @ ''>''
        @ ''<p>end</p>'') ?images
    = ''<p>Three</p>'' @ ''<IMG'' @ ([CHR 0x20] @ ''alt='' @ [CHR 0x22] @ ''x'' @ [CHR 0x22, CHR 0x20])
        @ ''src='' @ CHR 0x22 # ''#'' @ CHR 0x22 # [CHR 0x20, CHR ''/''] @ ''>''
        @ replace_image_references ''<p>end</p>'' ?images"
    using demo_unmatched demo_before
    by (intro unmatched_reference_gets_placeholder) simp_all
  then show ?thesis by (simp add: demo_after)
qed

text \<open>
  A tag whose attribute is written \<^verbatim>\<open>SRC\<close> matches the pattern of the tags, which
  ignores case, and not the pattern of the attribute, which does not: its reference
  stays, also with a map that is not empty.
\<close>

lemma upper_case_attribute_stays:
  \<open>replace_image_references ''<IMG SRC="missing.gif">''
     [(''images/a.png'', ''data:image/png;base64,YWJj''),
      (''a.png'', ''data:image/png;base64,YWJj'')]
   = ''<IMG SRC="missing.gif">''\<close>
  by code_simp

subsection \<open>FragmentSanitizer\<close>

lemma xml_declaration_matches:
  assumes "\<forall>x\<in>set a. x \<noteq> CHR ''>''"
  shows "rmatch xml_pattern ((''<?xml'' @ a @ ''?>'') @ rest)
    = Some (length (''<?xml'' @ a @ ''?>''), None)"
proof -
  have run: "\<forall>x\<in>set a. cmatch (NoneOf ''>'') x" using assms by simp
  have "rmatch (Star (NoneOf ''>'') # lit ''?>'') (a @ ''?'' @ CHR ''>'' # rest)
      = Some (shiftn (length a) (2, None))"
    using run by (rule star_backtrack) (simp_all add: lit_def shift_def)
  then have "rmatch (lit ''<?xml'' @ Star (NoneOf ''>'') # lit ''?>'')
        (''<?xml'' @ a @ ''?'' @ CHR ''>'' # rest)
      = Some (shiftn (length ''<?xml'') (shiftn (length a) (2, None)))"
    by (simp only: rmatch_lit option.map)
  then show ?thesis by (simp add: xml_pattern_def shiftn_def)
qed

lemma doctype_declaration_matches:
  assumes "\<forall>x\<in>set a. x \<noteq> CHR ''>''"
  shows "rmatch doctype_pattern ((''<!DOCTYPE'' @ a @ ''>'') @ rest)
    = Some (length (''<!DOCTYPE'' @ a @ ''>''), None)"
proof -
  have run: "\<forall>x\<in>set a. cmatch (NoneOf ''>'') x" using assms by simp
  have "rmatch (Star (NoneOf ''>'') # lit ''>'') (a @ CHR ''>'' # rest)
      = Some (shiftn (length a) (1, None))"
    using run by (rule star_take_all) (simp_all add: lit_def shift_def)
  then have "rmatch (lit ''<!DOCTYPE'' @ Star (NoneOf ''>'') # lit ''>'')
        (''<!DOCTYPE'' @ a @ CHR ''>'' # rest)
      = Some (shiftn (length ''<!DOCTYPE'') (shiftn (length a) (1, None)))"
    by (simp only: rmatch_lit option.map)
  then show ?thesis by (simp add: doctype_pattern_def shiftn_def)
qed

lemma sub_delete_match:
  assumes "rmatch ts (m @ rest) = Some (length m, g)" and "m \<noteq> []"
  shows "sub ts delete (m @ rest) = sub ts delete rest"
  using sub_match [OF assms, of delete] by (simp add: delete_def)

lemma xml_needs_lt_q:
  "y \<noteq> CHR ''<'' \<or> z \<noteq> CHR ''?'' \<Longrightarrow> rmatch xml_pattern (y # z # u) = None"
  by (auto simp: xml_pattern_def lit_def)

lemma clean_after_xml_declaration:
  assumes "\<forall>x\<in>set a. x \<noteq> CHR ''>''"
  shows "clean_html_content (''<?xml'' @ a @ ''?>'' @ rest) = clean_html_content rest"
proof -
  have "sub xml_pattern delete ((''<?xml'' @ a @ ''?>'') @ rest) = sub xml_pattern delete rest"
    using xml_declaration_matches [OF assms] by (rule sub_delete_match) simp
  then have "sub xml_pattern delete (''<?xml'' @ a @ ''?>'' @ rest) = sub xml_pattern delete rest"
    by simp
  then show ?thesis by (simp only: clean_html_content_def)
qed

lemma clean_after_doctype:
  assumes "\<forall>x\<in>set a. x \<noteq> CHR ''>'' \<and> x \<noteq> CHR ''<''"
  shows "clean_html_content (''<!DOCTYPE'' @ a @ ''>'' @ rest) = clean_html_content rest"
proof -
  let ?d = "''<!DOCTYPE'' @ a @ ''>''"
  have "\<forall>k<length ?d. rmatch xml_pattern (drop k ?d @ rest) = None"
  proof (intro allI impI)
    fix k assume k: "k < length ?d"
    show "rmatch xml_pattern (drop k ?d @ rest) = None"
    proof (cases k)
      case 0
      then show ?thesis using xml_needs_lt_q [of "CHR ''<''" "CHR ''!''"] by simp
    next
      case (Suc k')
      from k obtain y u where d: "drop k ?d = y # u" by (cases "drop k ?d") auto
      then have "y \<in> set (drop k ?d)" by simp
      then have "y \<in> set (''!DOCTYPE'' @ a @ ''>'')"
        using Suc by (auto dest: in_set_dropD)
      then have y: "y \<noteq> CHR ''<''" using assms by auto
      show ?thesis
      proof (cases "u @ rest")
        case Nil
        with d show ?thesis by (simp add: xml_pattern_def lit_def)
      next
        case (Cons z v)
        with d y show ?thesis using xml_needs_lt_q [of y z v] by simp
      qed
    qed
  qed
  then have "sub xml_pattern delete (?d @ rest) = ?d @ sub xml_pattern delete rest"
    by (rule sub_skip)
  moreover have "sub doctype_pattern delete (?d @ sub xml_pattern delete rest)
      = sub doctype_pattern delete (sub xml_pattern delete rest)"
    using doctype_declaration_matches [of a "sub xml_pattern delete rest"] assms
    by (intro sub_delete_match) auto
  ultimately have "sub doctype_pattern delete (sub xml_pattern delete (''<!DOCTYPE'' @ a @ ''>'' @ rest))
      = sub doctype_pattern delete (sub xml_pattern delete rest)"
    by simp
  then show ?thesis by (simp only: clean_html_content_def Let_def)
qed

lemma lower_char_slash: "lower_char x = CHR ''/'' \<longleftrightarrow> x = CHR ''/''"
  by (cases x) (auto simp: lower_char_def ascii_uppercase_def)

lemma lower_char_b: "lower_char x = CHR ''b'' \<longleftrightarrow> x = CHR ''b'' \<or> x = CHR ''B''"
proof (cases "x \<in> set ascii_uppercase")
  case True
  then show ?thesis by (auto simp: lower_char_def ascii_uppercase_def)
next
  case False
  then show ?thesis by (auto simp: lower_char_def ascii_uppercase_def)
qed

lemma lower_char_h: "lower_char x = CHR ''h'' \<longleftrightarrow> x = CHR ''h'' \<or> x = CHR ''H''"
proof (cases "x \<in> set ascii_uppercase")
  case True
  then show ?thesis by (auto simp: lower_char_def ascii_uppercase_def)
next
  case False
  then show ?thesis by (auto simp: lower_char_def ascii_uppercase_def)
qed

lemma lower_char_more [simp]:
  "lower_char CHR ''/'' = CHR ''/''" "lower_char CHR ''b'' = CHR ''b''"
  "lower_char CHR ''h'' = CHR ''h''" "lower_char CHR ''i'' = CHR ''i''"
  by (simp_all add: lower_char_def ascii_uppercase_def)

text \<open>Where a text holds no two characters \<open>c1 c2\<close> in a row, no match that needs them starts.\<close>

lemma window2:
  assumes "drop k s = y # z # v"
  shows "sublist [y, z] s"
proof -
  have "s = take k s @ [y, z] @ v" using assms by (metis append_take_drop_id append_Cons append_Nil)
  then show ?thesis unfolding sublist_def by blast
qed

lemma window3:
  assumes "drop k s = y # z # w # v"
  shows "sublist [y, z, w] s"
proof -
  have "s = take k s @ [y, z, w] @ v"
    using assms by (metis append_take_drop_id append_Cons append_Nil)
  then show ?thesis unfolding sublist_def by blast
qed

lemma no_start_in:
  assumes fail: "\<And>y z u. \<not> P y z \<Longrightarrow> rmatch ts (y # z # u) = None"
    and short: "\<And>y. rmatch ts [y] = None"
    and free: "\<And>y z. sublist [y, z] s \<Longrightarrow> \<not> P y z"
    and edge: "rest = [] \<or> (\<exists>z rest'. rest = z # rest' \<and> (\<forall>y. \<not> P y z))"
  shows "\<forall>k<length s. rmatch ts (drop k s @ rest) = None"
proof (intro allI impI)
  fix k assume "k < length s"
  then obtain y u where d: "drop k s = y # u" by (cases "drop k s") auto
  show "rmatch ts (drop k s @ rest) = None"
  proof (cases u)
    case Nil
    from edge show ?thesis
    proof
      assume "rest = []"
      with d Nil show ?thesis by (simp add: short)
    next
      assume "\<exists>z rest'. rest = z # rest' \<and> (\<forall>y. \<not> P y z)"
      then obtain z rest' where "rest = z # rest'" "\<not> P y z" by blast
      with d Nil show ?thesis by (simp add: fail)
    qed
  next
    case (Cons z v)
    with d have "sublist [y, z] s" by (intro window2 [of k]) simp
    then have "\<not> P y z" by (rule free)
    with d Cons show ?thesis by (simp add: fail)
  qed
qed

lemma xml_short: "rmatch xml_pattern [y] = None"
  by (simp add: xml_pattern_def lit_def)

lemma doctype_needs_lt_bang:
  "y \<noteq> CHR ''<'' \<or> z \<noteq> CHR ''!'' \<Longrightarrow> rmatch doctype_pattern (y # z # u) = None"
  by (auto simp: doctype_pattern_def lit_def)

lemma doctype_short: "rmatch doctype_pattern [y] = None"
  by (simp add: doctype_pattern_def lit_def)

lemma no_declaration_kept:
  assumes "\<not> sublist ''<?'' content" and "\<not> sublist ''<!'' content"
  shows "sub doctype_pattern delete (sub xml_pattern delete content) = content"
proof -
  have "\<forall>k<length content. rmatch xml_pattern (drop k content @ []) = None"
  proof (rule no_start_in [where P = "\<lambda>y z. y = CHR ''<'' \<and> z = CHR ''?''"])
    show "rmatch xml_pattern (y # z # u) = None" if "\<not> (y = CHR ''<'' \<and> z = CHR ''?'')" for y z u
      using that xml_needs_lt_q [of y z u] by blast
    show "rmatch xml_pattern [y] = None" for y by (rule xml_short)
    show "\<not> (y = CHR ''<'' \<and> z = CHR ''?'')" if "sublist [y, z] content" for y z
      using that assms(1) by auto
  qed simp
  then have "sub xml_pattern delete (content @ []) = content @ sub xml_pattern delete []"
    by (rule sub_skip)
  then have x: "sub xml_pattern delete content = content" by simp
  have "\<forall>k<length content. rmatch doctype_pattern (drop k content @ []) = None"
  proof (rule no_start_in [where P = "\<lambda>y z. y = CHR ''<'' \<and> z = CHR ''!''"])
    show "rmatch doctype_pattern (y # z # u) = None" if "\<not> (y = CHR ''<'' \<and> z = CHR ''!'')" for y z u
      using that doctype_needs_lt_bang [of y z u] by blast
    show "rmatch doctype_pattern [y] = None" for y by (rule doctype_short)
    show "\<not> (y = CHR ''<'' \<and> z = CHR ''!'')" if "sublist [y, z] content" for y z
      using that assms(2) by auto
  qed simp
  then have "sub doctype_pattern delete (content @ []) = content @ sub doctype_pattern delete []"
    by (rule sub_skip)
  with x show ?thesis by simp
qed


text \<open>
  C6, at a document with no body element whose document type declaration is written in
  lower case, as HTML allows: the tags \<^verbatim>\<open>html\<close> and the section \<^verbatim>\<open>head\<close> are removed, whatever
  their case, and the declaration stays. The same document with the declaration in upper
  case loses it. The two patterns of the declarations are the only ones that the sanitizer
  uses without \<^verbatim>\<open>re.IGNORECASE\<close>.
\<close>

theorem lower_case_declaration_stays:
  "clean_html_content ''<!doctype html><HTML><head><title>t</title></HEAD><p>Hello</p></html>''
     = ''<!doctype html><p>Hello</p>'' \<and>
   clean_html_content ''<!DOCTYPE html><HTML><head><title>t</title></HEAD><p>Hello</p></html>''
     = ''<p>Hello</p>'' \<and>
   clean_html_content ''<?XML version=1?><p>Hello</p>'' = ''<?XML version=1?><p>Hello</p>'' \<and>
   clean_html_content ''<?xml version=1?><p>Hello</p>'' = ''<p>Hello</p>''"
  by code_simp
end
